theory Spec2Isabelle
  imports Main "HOL-Library.Word"
begin

section \<open>Key validation and memory search of the chat-log key extractor\<close>

text \<open>
  The development embeds two Go source files: the validator
  (\<^verbatim>\<open>package decrypt\<close>, type \<^verbatim>\<open>Validator\<close>) and the macOS version-4 key extractor
  (\<^verbatim>\<open>internal/wechat/key/darwin/v4.go\<close>, type \<^verbatim>\<open>V4Extractor\<close>).

  Conventions of the embedding:
  \<^item> a Go \<^verbatim>\<open>[]byte\<close> is a list of 8-bit words; a Go \<^verbatim>\<open>string\<close> is a \<open>string\<close>;
  \<^item> a Go \<^verbatim>\<open>int\<close> that indexes a slice is an \<open>int\<close> (every value stays between
    \<open>-80\<close> and the length of the slice plus a small constant, far from 64-bit overflow);
    the \<^verbatim>\<open>int32\<close> counter \<^verbatim>\<open>matchedCount\<close> is a \<open>32 word\<close> read with \<open>sint\<close>;
  \<^item> a \<^verbatim>\<open>sync.Map\<close> used as a set of keys is a set of its keys;
  \<^item> a run-time panic is a value of type \<open>panic\<close>, returned as \<open>Inl\<close>;
  \<^item> methods that mutate the receiver return the updated receiver;
  \<^item> the calls made to the validator are recorded in a list that the search functions
    return beside their result, so that "is passed to the validator" can be stated.
\<close>

subsection \<open>Bytes and the Go library functions the code calls\<close>

type_synonym byte = "8 word"

datatype panic = NilPointerDereference | SliceBoundsOutOfRange

text \<open>
  The slice expression \<^verbatim>\<open>s[lo:hi]\<close>. Go panics unless \<open>0 \<le> lo \<le> hi \<le> cap s\<close>; the
  model panics unless \<open>0 \<le> lo \<le> hi \<le> len s\<close>, which is never more permissive.
\<close>

definition subslice :: "byte list \<Rightarrow> int \<Rightarrow> int \<Rightarrow> panic + byte list" where
  "subslice s lo hi =
     (if 0 \<le> lo \<and> lo \<le> hi \<and> hi \<le> int (length s)
      then Inr (take (nat (hi - lo)) (drop (nat lo) s))
      else Inl SliceBoundsOutOfRange)"

text \<open>\<^verbatim>\<open>hex.EncodeToString\<close>: two lowercase hexadecimal digits per byte.\<close>

definition hextable :: string where
  "hextable = ''0123456789abcdef''"

definition EncodeToString :: "byte list \<Rightarrow> string" where
  "EncodeToString src =
     concat (map (\<lambda>v. [hextable ! (unat v div 16), hextable ! (unat v mod 16)]) src)"

text \<open>\<^verbatim>\<open>strings.Join\<close>.\<close>

fun Join :: "string list \<Rightarrow> string \<Rightarrow> string" where
  "Join [] sep = []"
| "Join [x] sep = x"
| "Join (x # y # ys) sep = x @ sep @ Join (y # ys) sep"

text \<open>
  \<^verbatim>\<open>bytes.LastIndex s sep\<close>: the index of the last instance of \<open>sep\<close> in \<open>s\<close>, or \<open>-1\<close>;
  the empty \<open>sep\<close> is found at \<open>len s\<close>. \<open>LastIndex_from s sep n\<close> tries the start
  positions \<open>n, n - 1, \<dots>, 0\<close>.
\<close>

fun LastIndex_from :: "byte list \<Rightarrow> byte list \<Rightarrow> nat \<Rightarrow> int" where
  "LastIndex_from s sep 0 = (if take (length sep) s = sep then 0 else -1)"
| "LastIndex_from s sep (Suc n) =
     (if take (length sep) (drop (Suc n) s) = sep then int (Suc n)
      else LastIndex_from s sep n)"

definition LastIndex :: "byte list \<Rightarrow> byte list \<Rightarrow> int" where
  "LastIndex s sep =
     (if length sep = 0 then int (length s)
      else if length s < length sep then -1
      else LastIndex_from s sep (length s - length sep))"

text \<open>\<^verbatim>\<open>bytes.Contains b subslice\<close> is \<^verbatim>\<open>Index(b, subslice) != -1\<close>.\<close>

fun Contains :: "byte list \<Rightarrow> byte list \<Rightarrow> bool" where
  "Contains [] sub = (sub = [])"
| "Contains (x # xs) sub = (take (length sub) (x # xs) = sub \<or> Contains xs sub)"

text \<open>
  \<^verbatim>\<open>bytes.LastIndexFunc\<close> reads its argument as UTF-8, backwards, one code point at a
  time, and returns the byte index at which the last code point satisfying the predicate
  starts. The functions below follow \<^verbatim>\<open>unicode/utf8\<close>: \<open>first\<close> is the table
  \<^verbatim>\<open>first\<close> together with \<^verbatim>\<open>acceptRanges\<close>, giving for a leading byte the length of the
  sequence and the range allowed for its second byte.
\<close>

unbundle bit_operations_syntax

type_synonym rune = "32 word"

definition RuneError :: rune where
  "RuneError = 0xFFFD"

datatype first_info = ASCII | Invalid | Lead nat byte byte

definition first :: "byte \<Rightarrow> first_info" where
  "first p0 =
     (if p0 < 0x80 then ASCII
      else if p0 < 0xC2 then Invalid
      else if p0 < 0xE0 then Lead 2 0x80 0xBF
      else if p0 = 0xE0 then Lead 3 0xA0 0xBF
      else if p0 < 0xED then Lead 3 0x80 0xBF
      else if p0 = 0xED then Lead 3 0x80 0x9F
      else if p0 < 0xF0 then Lead 3 0x80 0xBF
      else if p0 = 0xF0 then Lead 4 0x90 0xBF
      else if p0 < 0xF4 then Lead 4 0x80 0xBF
      else if p0 = 0xF4 then Lead 4 0x80 0x8F
      else Invalid)"

fun DecodeRune :: "byte list \<Rightarrow> rune \<times> nat" where
  "DecodeRune [] = (RuneError, 0)"
| "DecodeRune (p0 # ps) =
     (case first p0 of
        ASCII \<Rightarrow> (ucast p0, 1)
      | Invalid \<Rightarrow> (RuneError, 1)
      | Lead sz lo hi \<Rightarrow>
          if length (p0 # ps) < sz then (RuneError, 1)
          else let b1 = ps ! 0 in
            if b1 < lo \<or> hi < b1 then (RuneError, 1)
            else if sz \<le> 2 then
              (push_bit 6 (ucast (p0 AND 0x1F)) OR ucast (b1 AND 0x3F), 2)
            else let b2 = ps ! 1 in
              if b2 < 0x80 \<or> 0xBF < b2 then (RuneError, 1)
              else if sz \<le> 3 then
                (push_bit 12 (ucast (p0 AND 0x0F)) OR push_bit 6 (ucast (b1 AND 0x3F))
                   OR ucast (b2 AND 0x3F), 3)
              else let b3 = ps ! 2 in
                if b3 < 0x80 \<or> 0xBF < b3 then (RuneError, 1)
                else
                  (push_bit 18 (ucast (p0 AND 0x07)) OR push_bit 12 (ucast (b1 AND 0x3F))
                     OR push_bit 6 (ucast (b2 AND 0x3F)) OR ucast (b3 AND 0x3F), 4))"

definition RuneStart :: "byte \<Rightarrow> bool" where
  "RuneStart b = (b AND 0xC0 \<noteq> 0x80)"

text \<open>
  The backward loop of \<^verbatim>\<open>DecodeLastRune\<close>:
  \<^verbatim>\<open>for start--; start >= lim; start-- { if RuneStart(p[start]) { break } }\<close>,
  entered with \<open>start\<close> already decremented.
\<close>

function DecodeLastRune_start :: "byte list \<Rightarrow> int \<Rightarrow> int \<Rightarrow> int" where
  "DecodeLastRune_start p lim start =
     (if start \<ge> lim then
        (if RuneStart (p ! nat start) then start
         else DecodeLastRune_start p lim (start - 1))
      else start)"
  by pat_completeness auto
termination
  by (relation "measure (\<lambda>(p, lim, start). nat (start - lim + 1))") auto

definition DecodeLastRune :: "byte list \<Rightarrow> rune \<times> nat" where
  "DecodeLastRune p =
     (let endp = int (length p) in
      if endp = 0 then (RuneError, 0)
      else
        let start = endp - 1 in
        if p ! nat start < 0x80 then (ucast (p ! nat start), 1)
        else
          let lim = (if endp - 4 < 0 then 0 else endp - 4);
              start = DecodeLastRune_start p lim (start - 1);
              start = (if start < 0 then 0 else start);
              rs = DecodeRune (drop (nat start) p)
          in if start + int (snd rs) \<noteq> endp then (RuneError, 1) else rs)"

text \<open>
  \<^verbatim>\<open>lastIndexFunc(s, f, true)\<close>, the loop behind \<^verbatim>\<open>bytes.LastIndexFunc\<close>; \<open>i\<close> is the
  loop variable, which starts at \<open>len s\<close> and only decreases. The Go condition is
  \<open>i > 0\<close>; the model adds \<open>i \<le> len s\<close>, which holds throughout the Go loop, because
  \<open>s ! (i - 1)\<close> is unspecified in HOL beyond the slice. \<open>lastRune s i\<close> is the pair
  \<^verbatim>\<open>r, size\<close> of one iteration.
\<close>

definition lastRune :: "byte list \<Rightarrow> nat \<Rightarrow> rune \<times> nat" where
  "lastRune s i =
     (if s ! (i - 1) \<ge> 0x80 then DecodeLastRune (take i s) else (ucast (s ! (i - 1)), 1))"

declare DecodeLastRune_start.simps [simp del]
lemma DecodeLastRune_start_le: "DecodeLastRune_start p lim start \<le> start"
  by (induction p lim start rule: DecodeLastRune_start.induct)
     (subst DecodeLastRune_start.simps, auto)

lemma DecodeLastRune_size:
  assumes "p \<noteq> []"
  shows "1 \<le> snd (DecodeLastRune p) \<and> snd (DecodeLastRune p) \<le> length p"
proof -
  have len: "0 < length p" using assms by simp
  define lim :: int where "lim = (if int (length p) - 4 < 0 then 0 else int (length p) - 4)"
  define start0 where "start0 = DecodeLastRune_start p lim (int (length p) - 1 - 1)"
  define start where "start = (if start0 < 0 then 0 else start0)"
  define rs where "rs = DecodeRune (drop (nat start) p)"
  have "start0 \<le> int (length p) - 2"
    using DecodeLastRune_start_le [of p lim "int (length p) - 1 - 1"] by (simp add: start0_def)
  then have st: "0 \<le> start \<and> start < int (length p)"
    using len by (simp add: start_def)
  have eq: "DecodeLastRune p =
      (if p ! nat (int (length p) - 1) < 0x80 then (ucast (p ! nat (int (length p) - 1)), 1)
       else if start + int (snd rs) \<noteq> int (length p) then (RuneError, 1) else rs)"
    using len by (simp add: DecodeLastRune_def Let_def rs_def start_def start0_def lim_def)
  show ?thesis
    unfolding eq using st len by auto
qed

lemma lastRune_size:
  assumes "0 < i" and "i \<le> length s"
  shows "1 \<le> snd (lastRune s i) \<and> snd (lastRune s i) \<le> i"
proof (cases "s ! (i - 1) \<ge> 0x80")
  case True
  have "take i s \<noteq> []" using assms by auto
  from DecodeLastRune_size [OF this] show ?thesis
    using True assms by (simp add: lastRune_def)
next
  case False
  then show ?thesis using assms by (simp add: lastRune_def)
qed

function lastIndexFunc :: "byte list \<Rightarrow> (rune \<Rightarrow> bool) \<Rightarrow> nat \<Rightarrow> int" where
  "lastIndexFunc s f i =
     (if 0 < i \<and> i \<le> length s then
        (let r = fst (lastRune s i); size = snd (lastRune s i) in
         if f r then int i - int size else lastIndexFunc s f (i - size))
      else -1)"
  by pat_completeness auto
termination
proof (relation "measure (\<lambda>(s, f, i). i)")
  show "wf (measure (\<lambda>(s, f, i). i))" by simp
next
  fix s :: "byte list" and f :: "rune \<Rightarrow> bool" and i r size
  assume "0 < i \<and> i \<le> length s" and "size = snd (lastRune s i)"
  then show "((s, f, i - size), (s, f, i)) \<in> measure (\<lambda>(s, f, i). i)"
    using lastRune_size [of i s] by simp
qed

declare lastIndexFunc.simps [simp del]

definition LastIndexFunc :: "byte list \<Rightarrow> (rune \<Rightarrow> bool) \<Rightarrow> int" where
  "LastIndexFunc s f = lastIndexFunc s f (length s)"

text \<open>
  The index returned is that of the first byte of a code point: after \<open>A\<close> and the two
  bytes \<open>C3 A9\<close> of one accented letter it is 1; a continuation byte on its own is a code point of one byte; the
  three bytes of the euro sign start at 0.
\<close>

lemma LastIndexFunc_code_point:
  "LastIndexFunc [0x41, 0xC3, 0xA9, 0x00, 0x00] (\<lambda>r. r \<noteq> 0) = 1 \<and>
   LastIndexFunc [0x41, 0xA9, 0x00, 0x00] (\<lambda>r. r \<noteq> 0) = 1 \<and>
   LastIndexFunc [0xE2, 0x82, 0xAC, 0x00] (\<lambda>r. r \<noteq> 0) = 0 \<and>
   LastIndexFunc [0x00, 0x00] (\<lambda>r. r \<noteq> 0) = -1"
  by code_simp

subsection \<open>The validator\<close>

text \<open>
  \<^verbatim>\<open>common.DBFile\<close> holds the path of a database file and its first page. A
  \<^verbatim>\<open>Decryptor\<close> is an interface value: every decryptor has \<^verbatim>\<open>Validate(page1, key)\<close>; the
  method \<^verbatim>\<open>ValidateDerivedKey(page1, key)\<close> is found by a type assertion, which fails
  (\<open>None\<close>) for a decryptor without it. The cryptography behind both methods is not part
  of the embedded files and stays a parameter.
\<close>

record DBFile =
  Path :: string
  FirstPage :: "byte list"

record Decryptor =
  dec_Validate :: "byte list \<Rightarrow> byte list \<Rightarrow> bool"
  dec_ValidateDerivedKey :: "(byte list \<Rightarrow> byte list \<Rightarrow> bool) option"

text \<open>
  The struct \<^verbatim>\<open>Validator\<close>. \<open>matchedDBs\<close> is the \<^verbatim>\<open>sync.Map\<close> from database index to
  \<^verbatim>\<open>true\<close> (\<open>-1\<close> the primary database, \<open>0..\<close> the extra ones), kept as the set of its
  keys; \<open>matchedCount\<close> is the \<^verbatim>\<open>int32\<close> updated with \<^verbatim>\<open>atomic.AddInt32\<close>;
  \<open>imgKeyValidator\<close> is a pointer that may be nil. The field \<^verbatim>\<open>dbPath\<close> is not read by
  any method and is left out.
\<close>

record Validator =
  platform :: string
  version :: int
  decryptor :: Decryptor
  dbFile :: DBFile
  extraDBFiles :: "DBFile list"
  imgKeyValidator :: "(byte list \<Rightarrow> bool) option"
  matchedDBs :: "int set"
  matchedCount :: "32 word"
  totalDBCount :: int

datatype go_error = GoError string

text \<open>
  \<^verbatim>\<open>NewValidatorWithFile(platform, version, dataDir)\<close>. What the constructor obtains from
  outside is passed in: \<open>newDecryptor\<close> is the result of \<^verbatim>\<open>NewDecryptor(platform, version)\<close>,
  \<open>openDBFile\<close> the result of \<^verbatim>\<open>common.OpenDBFile(dbPath, pageSize)\<close>, \<open>newImgKeyValidator\<close>
  the result of \<^verbatim>\<open>dat2img.NewImgKeyValidator(dataDir)\<close>, and \<open>walked\<close> the extra database
  files that the \<^verbatim>\<open>filepath.Walk\<close> callback opened and appended, in order.
\<close>

definition NewValidatorWithFile ::
  "string \<Rightarrow> int \<Rightarrow> go_error + Decryptor \<Rightarrow> go_error + DBFile \<Rightarrow>
   (byte list \<Rightarrow> bool) \<Rightarrow> DBFile list \<Rightarrow> go_error + Validator" where
  "NewValidatorWithFile platform' version' newDecryptor openDBFile newImgKeyValidator walked =
     (case newDecryptor of
        Inl err \<Rightarrow> Inl err
      | Inr decryptor' \<Rightarrow>
          (case openDBFile of
             Inl err \<Rightarrow> Inl err
           | Inr d \<Rightarrow>
               let validator = \<lparr> platform = platform', version = version',
                                 decryptor = decryptor', dbFile = d, extraDBFiles = [],
                                 imgKeyValidator = None, matchedDBs = {}, matchedCount = 0,
                                 totalDBCount = 0 \<rparr>
               in if version' = 4 then
                    Inr (validator \<lparr> imgKeyValidator := Some newImgKeyValidator,
                                      extraDBFiles := walked,
                                      totalDBCount := int (length walked) + 1 \<rparr>)
                  else Inr validator))"

definition Validate :: "Validator \<Rightarrow> byte list \<Rightarrow> bool" where
  "Validate v key = dec_Validate (decryptor v) (FirstPage (dbFile v)) key"

text \<open>
  \<^verbatim>\<open>if _, already := v.matchedDBs.LoadOrStore(i, true); !already
     { atomic.AddInt32(&v.matchedCount, 1) }\<close>
\<close>

definition LoadOrStore_AddInt32 :: "Validator \<Rightarrow> int \<Rightarrow> Validator" where
  "LoadOrStore_AddInt32 v i =
     (if i \<in> matchedDBs v then v
      else v \<lparr> matchedDBs := insert i (matchedDBs v), matchedCount := matchedCount v + 1 \<rparr>)"

text \<open>
  The loop \<^verbatim>\<open>for i, extraDB := range v.extraDBFiles\<close> of \<^verbatim>\<open>ValidateDerivedKey\<close>; \<open>i\<close> is
  the index of the head of the list that is left.
\<close>

fun ValidateDerivedKey_extras ::
  "(byte list \<Rightarrow> byte list \<Rightarrow> bool) \<Rightarrow> byte list \<Rightarrow> int \<Rightarrow> DBFile list \<Rightarrow> Validator \<Rightarrow>
   bool \<times> Validator" where
  "ValidateDerivedKey_extras dv key i [] v = (False, v)"
| "ValidateDerivedKey_extras dv key i (extraDB # rest) v =
     (if i \<in> matchedDBs v then ValidateDerivedKey_extras dv key (i + 1) rest v
      else if dv (FirstPage extraDB) key then (True, LoadOrStore_AddInt32 v i)
      else ValidateDerivedKey_extras dv key (i + 1) rest v)"

definition ValidateDerivedKey :: "Validator \<Rightarrow> byte list \<Rightarrow> bool \<times> Validator" where
  "ValidateDerivedKey v key =
     (case dec_ValidateDerivedKey (decryptor v) of
        None \<Rightarrow> (False, v)
      | Some dv \<Rightarrow>
          if -1 \<notin> matchedDBs v \<and> dv (FirstPage (dbFile v)) key
          then (True, LoadOrStore_AddInt32 v (-1))
          else ValidateDerivedKey_extras dv key 0 (extraDBFiles v) v)"

text \<open>
  \<^verbatim>\<open>v.totalDBCount > 0 && atomic.LoadInt32(&v.matchedCount) >= int32(v.totalDBCount)\<close>:
  the conversion \<^verbatim>\<open>int32(...)\<close> truncates to 32 bits and the comparison is signed.
\<close>

definition AllDerivedKeysFound :: "Validator \<Rightarrow> bool" where
  "AllDerivedKeysFound v =
     (totalDBCount v > 0 \<and>
      sint (matchedCount v) \<ge> sint (word_of_int (totalDBCount v) :: 32 word))"

definition ValidateImgKey :: "Validator \<Rightarrow> byte list \<Rightarrow> bool" where
  "ValidateImgKey v key =
     (case imgKeyValidator v of None \<Rightarrow> False | Some validate \<Rightarrow> validate key)"

text \<open>A sequence of calls of \<^verbatim>\<open>ValidateDerivedKey\<close>, one after the other.\<close>

definition ValidateDerivedKey_calls :: "Validator \<Rightarrow> byte list list \<Rightarrow> Validator" where
  "ValidateDerivedKey_calls v keys = foldl (\<lambda>v key. snd (ValidateDerivedKey v key)) v keys"

text \<open>
  The databases in the order in which \<^verbatim>\<open>ValidateDerivedKey\<close> is specified to try them,
  each with its index: the primary one (\<open>-1\<close>), then the extra ones (\<open>0, 1, \<dots>\<close>).
\<close>

definition derived_candidates :: "Validator \<Rightarrow> (int \<times> DBFile) list" where
  "derived_candidates v =
     (-1, dbFile v) # map (\<lambda>(k, db). (int k, db)) (List.enumerate 0 (extraDBFiles v))"

text \<open>
  The specified behaviour of \<^verbatim>\<open>validateDerived\<close>: the first database, in that order, that is
  not yet matched and whose first page authenticates the key is marked and counted.
\<close>

definition ValidateDerivedKey_spec :: "Validator \<Rightarrow> byte list \<Rightarrow> bool \<times> Validator" where
  "ValidateDerivedKey_spec v key =
     (case dec_ValidateDerivedKey (decryptor v) of
        None \<Rightarrow> (False, v)
      | Some dv \<Rightarrow>
          (case find (\<lambda>(i, db). i \<notin> matchedDBs v \<and> dv (FirstPage db) key)
                  (derived_candidates v) of
             None \<Rightarrow> (False, v)
           | Some (i, db) \<Rightarrow>
               (True, v \<lparr> matchedDBs := insert i (matchedDBs v),
                          matchedCount := matchedCount v + 1 \<rparr>)))"

lemma ValidateDerivedKey_extras_find:
  "ValidateDerivedKey_extras dv key (int n) xs v =
     (case find (\<lambda>(i, db). i \<notin> matchedDBs v \<and> dv (FirstPage db) key)
             (map (\<lambda>(k, db). (int k, db)) (List.enumerate n xs)) of
        None \<Rightarrow> (False, v)
      | Some (i, db) \<Rightarrow>
          (True, v \<lparr> matchedDBs := insert i (matchedDBs v),
                     matchedCount := matchedCount v + 1 \<rparr>))"
proof (induction xs arbitrary: n)
  case Nil
  show ?case by simp
next
  case (Cons x xs)
  have step: "int n + 1 = int (Suc n)" by simp
  show ?case
    by (simp add: LoadOrStore_AddInt32_def step Cons.IH del: of_nat_Suc)
qed

lemma ValidateDerivedKey_refines:
  "ValidateDerivedKey v key = ValidateDerivedKey_spec v key"
proof (cases "dec_ValidateDerivedKey (decryptor v)")
  case None
  then show ?thesis by (simp add: ValidateDerivedKey_def ValidateDerivedKey_spec_def)
next
  case (Some dv)
  show ?thesis
    using ValidateDerivedKey_extras_find [of dv key 0 "extraDBFiles v" v]
    by (simp add: ValidateDerivedKey_def ValidateDerivedKey_spec_def Some
        derived_candidates_def LoadOrStore_AddInt32_def)
qed

text \<open>
  Claim C10. When the decryptor of the validator has no method
  \<^verbatim>\<open>ValidateDerivedKey\<close> (the type assertion fails), \<^verbatim>\<open>Validator.ValidateDerivedKey\<close> returns
  false for every key and changes neither \<open>matchedDBs\<close> nor \<open>matchedCount\<close> (nor any other
  field).
\<close>

theorem ValidateDerivedKey_unsupported:
  assumes "dec_ValidateDerivedKey (decryptor v) = None"
  shows "fst (ValidateDerivedKey v key) = False \<and>
         matchedDBs (snd (ValidateDerivedKey v key)) = matchedDBs v \<and>
         matchedCount (snd (ValidateDerivedKey v key)) = matchedCount v \<and>
         snd (ValidateDerivedKey v key) = v"
  using assms by (simp add: ValidateDerivedKey_def)

text \<open>
  An instance: a version-3 validator, as the constructor builds it, whose decryptor accepts
  every raw key and has no derived-key method; the key is 32 bytes \<open>0x11\<close>.
\<close>

definition v3_decryptor :: Decryptor where
  "v3_decryptor = \<lparr> dec_Validate = (\<lambda>page key. True), dec_ValidateDerivedKey = None \<rparr>"

definition v3_validator :: Validator where
  "v3_validator =
     \<lparr> platform = ''darwin'', version = 3, decryptor = v3_decryptor,
       dbFile = \<lparr> Path = ''Message/msg_0.db'', FirstPage = [] \<rparr>, extraDBFiles = [],
       imgKeyValidator = None, matchedDBs = {}, matchedCount = 0, totalDBCount = 0 \<rparr>"

lemma v3_validator_constructed:
  "NewValidatorWithFile ''darwin'' 3 (Inr v3_decryptor)
     (Inr \<lparr> Path = ''Message/msg_0.db'', FirstPage = [] \<rparr>) f walked = Inr v3_validator"
  by (simp add: NewValidatorWithFile_def v3_validator_def)

theorem ValidateDerivedKey_unsupported_witness:
  "dec_ValidateDerivedKey (decryptor v3_validator) = None \<and>
   fst (ValidateDerivedKey v3_validator (replicate 32 0x11)) = False \<and>
   matchedDBs (snd (ValidateDerivedKey v3_validator (replicate 32 0x11))) = {} \<and>
   matchedCount (snd (ValidateDerivedKey v3_validator (replicate 32 0x11))) = 0"
proof -
  have h: "dec_ValidateDerivedKey (decryptor v3_validator) = None"
    by (simp add: v3_validator_def v3_decryptor_def)
  show ?thesis
    using h ValidateDerivedKey_unsupported [OF h, of "replicate 32 0x11"]
    by (simp add: v3_validator_def)
qed

subsection \<open>The bookkeeping of matched databases\<close>

text \<open>
  The invariant of a version-4 validator: the matched indices are indices of databases,
  \<open>matchedCount\<close> counts them, and \<open>totalDBCount\<close> is the number of databases, below
  \<open>2 ^ 31\<close> so that the conversion to \<^verbatim>\<open>int32\<close> keeps it.
\<close>

definition matched_inv :: "Validator \<Rightarrow> bool" where
  "matched_inv v =
     (matchedDBs v \<subseteq> {-1..<int (length (extraDBFiles v))} \<and>
      sint (matchedCount v) = int (card (matchedDBs v)) \<and>
      totalDBCount v = int (length (extraDBFiles v)) + 1 \<and>
      totalDBCount v < 2 ^ 31)"

lemma derived_candidates_index:
  assumes "(i, db) \<in> set (derived_candidates v)"
  shows "i \<in> {-1..<int (length (extraDBFiles v))}"
  using assms by (auto simp: derived_candidates_def in_set_enumerate_eq)

lemma sint_succ_32:
  fixes w :: "32 word"
  assumes "sint w < 2 ^ 31 - 1" and "0 \<le> sint w"
  shows "sint (w + 1) = sint w + 1"
proof -
  have "sint (w + 1) = signed_take_bit 31 (sint w + 1)"
    by (simp add: sint_word_ariths)
  also have "\<dots> = sint w + 1"
    using assms by (intro signed_take_bit_int_eq_self) simp_all
  finally show ?thesis .
qed

lemma matched_inv_insert:
  assumes inv: "matched_inv v" and new: "i \<notin> matchedDBs v"
      and rng: "i \<in> {-1..<int (length (extraDBFiles v))}"
  shows "matched_inv (v \<lparr> matchedDBs := insert i (matchedDBs v),
                          matchedCount := matchedCount v + 1 \<rparr>)"
proof -
  let ?R = "{-1..<int (length (extraDBFiles v))}"
  have fin: "finite (matchedDBs v)"
    using inv by (auto simp: matched_inv_def intro: finite_subset)
  have sub: "insert i (matchedDBs v) \<subseteq> ?R"
    using inv rng by (simp add: matched_inv_def)
  have "card (insert i (matchedDBs v)) \<le> card ?R"
    by (rule card_mono) (use sub in simp_all)
  then have "card (matchedDBs v) + 1 \<le> length (extraDBFiles v) + 1"
    using fin new by simp
  then have small: "sint (matchedCount v) < 2 ^ 31 - 1"
    using inv by (simp add: matched_inv_def)
  have nonneg: "0 \<le> sint (matchedCount v)"
    using inv by (simp add: matched_inv_def)
  have "sint (matchedCount v + 1) = int (card (insert i (matchedDBs v)))"
    using sint_succ_32 [OF small nonneg] inv fin new by (simp add: matched_inv_def)
  then show ?thesis
    using inv sub by (simp add: matched_inv_def)
qed

lemma matched_inv_step:
  assumes "matched_inv v"
  shows "matched_inv (snd (ValidateDerivedKey v key))"
proof (cases "dec_ValidateDerivedKey (decryptor v)")
  case None
  then show ?thesis using assms by (simp add: ValidateDerivedKey_def)
next
  case (Some dv)
  show ?thesis
  proof (cases "find (\<lambda>(i, db). i \<notin> matchedDBs v \<and> dv (FirstPage db) key) (derived_candidates v)")
    case None
    then show ?thesis
      using assms Some by (simp add: ValidateDerivedKey_refines ValidateDerivedKey_spec_def)
  next
    case found: (Some c)
    obtain i db where c: "c = (i, db)" by (cases c)
    from found c have "(i, db) \<in> set (derived_candidates v)" and new: "i \<notin> matchedDBs v"
      by (auto simp: find_Some_iff in_set_conv_nth)
    then have "i \<in> {-1..<int (length (extraDBFiles v))}"
      by (simp only: derived_candidates_index)
    from matched_inv_insert [OF assms new this] show ?thesis
      using Some found c by (simp add: ValidateDerivedKey_refines ValidateDerivedKey_spec_def)
  qed
qed

lemma matched_inv_calls:
  "matched_inv v \<Longrightarrow> matched_inv (ValidateDerivedKey_calls v keys)"
  unfolding ValidateDerivedKey_calls_def
  by (induction keys arbitrary: v) (simp_all add: matched_inv_step)

lemma ValidateDerivedKey_calls_unsupported:
  "dec_ValidateDerivedKey (decryptor v) = None \<Longrightarrow> ValidateDerivedKey_calls v keys = v"
  unfolding ValidateDerivedKey_calls_def
  by (induction keys) (simp_all add: ValidateDerivedKey_def)

lemma matched_inv_bounds:
  assumes "matched_inv v"
  shows "sint (matchedCount v) \<le> totalDBCount v \<and>
         (AllDerivedKeysFound v \<longleftrightarrow>
            totalDBCount v > 0 \<and> sint (matchedCount v) = totalDBCount v)"
proof -
  let ?R = "{-1..<int (length (extraDBFiles v))}"
  have "card (matchedDBs v) \<le> card ?R"
    by (rule card_mono) (use assms in \<open>simp_all add: matched_inv_def\<close>)
  then have le: "sint (matchedCount v) \<le> totalDBCount v"
    using assms by (simp add: matched_inv_def)
  have "0 < totalDBCount v" and "totalDBCount v < 2 ^ 31"
    using assms by (simp_all add: matched_inv_def)
  then have "sint (word_of_int (totalDBCount v) :: 32 word) = totalDBCount v"
    by (simp add: sint_sbintrunc' signed_take_bit_int_eq_self)
  then show ?thesis
    using le by (auto simp: AllDerivedKeysFound_def)
qed

text \<open>
  Claim C3. In every state that a validator reaches from its construction by a sequence of
  calls of \<^verbatim>\<open>ValidateDerivedKey\<close>, \<open>matchedCount \<le> totalDBCount\<close>, and
  \<^verbatim>\<open>AllDerivedKeysFound()\<close> is true exactly when \<open>totalDBCount > 0\<close> and
  \<open>matchedCount = totalDBCount\<close>. The constructor is the one of a version-4 profile, or of
  another profile whose decryptor has no derived-key method (it then leaves
  \<open>totalDBCount = 0\<close>); the number of database files is below \<open>2 ^ 31\<close>.
\<close>

theorem matchedCount_invariant:
  assumes "NewValidatorWithFile platform' version' (Inr d) openDBFile newImg walked = Inr v0"
      and "version' = 4 \<or> dec_ValidateDerivedKey d = None"
      and "length walked + 1 < 2 ^ 31"
  shows "sint (matchedCount (ValidateDerivedKey_calls v0 keys))
           \<le> totalDBCount (ValidateDerivedKey_calls v0 keys) \<and>
         (AllDerivedKeysFound (ValidateDerivedKey_calls v0 keys) \<longleftrightarrow>
            totalDBCount (ValidateDerivedKey_calls v0 keys) > 0 \<and>
            sint (matchedCount (ValidateDerivedKey_calls v0 keys))
              = totalDBCount (ValidateDerivedKey_calls v0 keys))"
proof (cases "version' = 4")
  case True
  obtain db where "openDBFile = Inr db"
    using assms(1) by (cases openDBFile) (simp_all add: NewValidatorWithFile_def)
  then have "matched_inv v0"
    using assms(1,3) True by (auto simp: NewValidatorWithFile_def matched_inv_def)
  then show ?thesis
    by (intro matched_inv_bounds matched_inv_calls)
next
  case False
  obtain db where db: "openDBFile = Inr db"
    using assms(1) by (cases openDBFile) (simp_all add: NewValidatorWithFile_def)
  have "dec_ValidateDerivedKey (decryptor v0) = None"
    using assms(1,2) False db by (auto simp: NewValidatorWithFile_def)
  then have "ValidateDerivedKey_calls v0 keys = v0"
    by (rule ValidateDerivedKey_calls_unsupported)
  moreover have "matchedCount v0 = 0 \<and> totalDBCount v0 = 0"
    using assms(1) False db by (auto simp: NewValidatorWithFile_def)
  ultimately show ?thesis
    by (simp add: AllDerivedKeysFound_def)
qed

text \<open>
  An instance: a version-4 validator with the primary database and one extra database. The
  toy decryptor authenticates a derived key against a page when the page starts with the
  key. Three calls, of which the first matches the extra database, the second the primary
  one, and the third nothing any more.
\<close>

definition toy_decryptor :: Decryptor where
  "toy_decryptor =
     \<lparr> dec_Validate = (\<lambda>page key. False),
       dec_ValidateDerivedKey = Some (\<lambda>page key. take (length key) page = key) \<rparr>"

definition toy_primary :: DBFile where
  "toy_primary = \<lparr> Path = ''db_storage/message/message_0.db'', FirstPage = [1, 1, 7] \<rparr>"

definition toy_extra :: DBFile where
  "toy_extra = \<lparr> Path = ''db_storage/session/session.db'', FirstPage = [2, 2, 7] \<rparr>"

definition toy_validator :: Validator where
  "toy_validator =
     \<lparr> platform = ''darwin'', version = 4, decryptor = toy_decryptor,
       dbFile = toy_primary, extraDBFiles = [toy_extra],
       imgKeyValidator = Some (\<lambda>key. False), matchedDBs = {}, matchedCount = 0,
       totalDBCount = 2 \<rparr>"

lemma toy_validator_constructed:
  "NewValidatorWithFile ''darwin'' 4 (Inr toy_decryptor) (Inr toy_primary) (\<lambda>key. False)
     [toy_extra] = Inr toy_validator"
  by (simp add: NewValidatorWithFile_def toy_validator_def)

lemma toy_validator_calls:
  "ValidateDerivedKey_calls toy_validator [[2, 2], [1, 1], [2, 2]] =
     toy_validator \<lparr> matchedDBs := {-1, 0}, matchedCount := 2 \<rparr>"
  by (simp add: ValidateDerivedKey_calls_def ValidateDerivedKey_def LoadOrStore_AddInt32_def
      toy_validator_def toy_decryptor_def toy_primary_def toy_extra_def insert_commute)

theorem matchedCount_invariant_witness:
  "sint (matchedCount (ValidateDerivedKey_calls toy_validator [[2, 2], [1, 1], [2, 2]])) = 2 \<and>
   totalDBCount (ValidateDerivedKey_calls toy_validator [[2, 2], [1, 1], [2, 2]]) = 2 \<and>
   AllDerivedKeysFound (ValidateDerivedKey_calls toy_validator [[2, 2], [1, 1], [2, 2]])"
proof -
  have h2: "(4::int) = 4 \<or> dec_ValidateDerivedKey toy_decryptor = None" by simp
  have h3: "length [toy_extra] + 1 < 2 ^ 31" by simp
  show ?thesis
    using matchedCount_invariant [OF toy_validator_constructed h2 h3,
        of "[[2, 2], [1, 1], [2, 2]]"]
    unfolding toy_validator_calls by (simp add: toy_validator_def)
qed

subsection \<open>Concurrent calls of ValidateDerivedKey\<close>

text \<open>
  Workers call \<^verbatim>\<open>ValidateDerivedKey\<close> on the same validator at the same time. The shared
  state is touched by three atomic operations only, \<^verbatim>\<open>matchedDBs.Load\<close>,
  \<^verbatim>\<open>matchedDBs.LoadOrStore\<close> and \<^verbatim>\<open>atomic.AddInt32\<close>; everything else a call reads is
  immutable, and the decryptor's check is a function of the page and the key. A call in
  progress is therefore at one of these points:
  \<^item> \<open>AtLoad i\<close>: before \<^verbatim>\<open>Load(i)\<close> for database \<open>i\<close> (\<open>-1\<close> the primary one);
  \<^item> \<open>AtLoadOrStore i\<close>: the page of database \<open>i\<close> has authenticated the key, before
    \<^verbatim>\<open>LoadOrStore(i, true)\<close>;
  \<^item> \<open>AtAddInt32 i\<close>: \<^verbatim>\<open>LoadOrStore\<close> has stored \<open>i\<close>, before \<^verbatim>\<open>AddInt32\<close>;
  \<^item> \<open>Returned b\<close>: the call has returned \<open>b\<close>.
  One step of a call runs from one point to the next and contains one atomic operation.
\<close>

datatype call_pc = AtLoad int | AtLoadOrStore int | AtAddInt32 int | Returned bool

definition page_of :: "Validator \<Rightarrow> int \<Rightarrow> byte list" where
  "page_of v i =
     (if i = -1 then FirstPage (dbFile v) else FirstPage (extraDBFiles v ! nat i))"

text \<open>After database \<open>i\<close>: the next extra database, or \<^verbatim>\<open>return false\<close> after the last.\<close>

definition next_load :: "Validator \<Rightarrow> int \<Rightarrow> call_pc" where
  "next_load v i =
     (if i + 1 < int (length (extraDBFiles v)) then AtLoad (i + 1) else Returned False)"

definition call_start :: "Validator \<Rightarrow> call_pc" where
  "call_start v =
     (case dec_ValidateDerivedKey (decryptor v) of
        None \<Rightarrow> Returned False
      | Some dv \<Rightarrow> AtLoad (-1))"

fun call_step :: "Validator \<Rightarrow> byte list \<Rightarrow> call_pc \<Rightarrow> Validator \<times> call_pc" where
  "call_step v key (AtLoad i) =
     (if i \<in> matchedDBs v then (v, next_load v i)
      else
        (case dec_ValidateDerivedKey (decryptor v) of
           None \<Rightarrow> (v, Returned False)
         | Some dv \<Rightarrow>
             if dv (page_of v i) key then (v, AtLoadOrStore i) else (v, next_load v i)))"
| "call_step v key (AtLoadOrStore i) =
     (if i \<in> matchedDBs v then (v, Returned True)
      else (v \<lparr> matchedDBs := insert i (matchedDBs v) \<rparr>, AtAddInt32 i))"
| "call_step v key (AtAddInt32 i) = (v \<lparr> matchedCount := matchedCount v + 1 \<rparr>, Returned True)"
| "call_step v key (Returned b) = (v, Returned b)"

text \<open>A call running alone, for a number of steps.\<close>

fun call_run :: "nat \<Rightarrow> Validator \<Rightarrow> byte list \<Rightarrow> call_pc \<Rightarrow> Validator \<times> call_pc" where
  "call_run 0 v key pc = (v, pc)"
| "call_run (Suc n) v key pc =
     (case call_step v key pc of (v', pc') \<Rightarrow> call_run n v' key pc')"

text \<open>
  The system: the validator, the calls in progress (key and point), and the list of the
  database indices for which \<^verbatim>\<open>AddInt32\<close> has been executed, in order. A schedule is a
  list of actions: a new call starts, or the call number \<open>t\<close> takes its next step.
\<close>

record system =
  sys_validator :: Validator
  sys_calls :: "(byte list \<times> call_pc) list"
  sys_added :: "int list"

datatype action = Call "byte list" | Step nat

fun system_step :: "system \<Rightarrow> action \<Rightarrow> system" where
  "system_step s (Call key) =
     s \<lparr> sys_calls := sys_calls s @ [(key, call_start (sys_validator s))] \<rparr>"
| "system_step s (Step t) =
     (if t < length (sys_calls s) then
        (case sys_calls s ! t of (key, pc) \<Rightarrow>
           s \<lparr> sys_validator := fst (call_step (sys_validator s) key pc),
               sys_calls := (sys_calls s) [t := (key, snd (call_step (sys_validator s) key pc))],
               sys_added := (case pc of AtAddInt32 i \<Rightarrow> sys_added s @ [i] | _ \<Rightarrow> sys_added s) \<rparr>)
      else s)"

definition system_start :: "Validator \<Rightarrow> system" where
  "system_start v = \<lparr> sys_validator = v, sys_calls = [], sys_added = [] \<rparr>"

definition run_schedule :: "Validator \<Rightarrow> action list \<Rightarrow> system" where
  "run_schedule v schedule = foldl system_step (system_start v) schedule"

definition pending :: "int \<Rightarrow> (byte list \<times> call_pc) list \<Rightarrow> nat" where
  "pending i cs = length (filter (\<lambda>c. snd c = AtAddInt32 i) cs)"

definition quiescent :: "system \<Rightarrow> bool" where
  "quiescent s = list_all (\<lambda>c. case snd c of Returned b \<Rightarrow> True | _ \<Rightarrow> False) (sys_calls s)"

subsubsection \<open>A call running alone is the sequential function\<close>

lemma call_run_Returned: "call_run n v key (Returned b) = (v, Returned b)"
  by (induction n) simp_all

lemma call_run_LoadOrStore:
  assumes "2 \<le> n"
  shows "call_run n v key (AtLoadOrStore i) = (LoadOrStore_AddInt32 v i, Returned True)"
proof -
  obtain m where n: "n = Suc (Suc m)"
    using assms by (metis Suc_le_D numeral_2_eq_2 Suc_le_mono)
  show ?thesis
    unfolding n by (simp add: LoadOrStore_AddInt32_def call_run_Returned)
qed

lemma call_run_extras:
  assumes "dec_ValidateDerivedKey (decryptor v) = Some dv"
      and "k \<le> length (extraDBFiles v)"
      and "length (extraDBFiles v) - k + 2 \<le> n"
  shows "call_run n v key (next_load v (int k - 1)) =
           (snd (ValidateDerivedKey_extras dv key (int k) (drop k (extraDBFiles v)) v),
            Returned (fst (ValidateDerivedKey_extras dv key (int k) (drop k (extraDBFiles v)) v)))"
  using assms(2,3)
proof (induction "length (extraDBFiles v) - k" arbitrary: k n)
  case 0
  then have "k = length (extraDBFiles v)" by simp
  then show ?case by (simp add: next_load_def call_run_Returned)
next
  case (Suc d)
  then have k: "k < length (extraDBFiles v)" by simp
  then have nl: "next_load v (int k - 1) = AtLoad (int k)"
    by (simp add: next_load_def)
  have dr: "drop k (extraDBFiles v) = extraDBFiles v ! k # drop (Suc k) (extraDBFiles v)"
    using k by (simp add: Cons_nth_drop_Suc)
  have pg: "page_of v (int k) = FirstPage (extraDBFiles v ! k)"
    by (simp add: page_of_def)
  obtain m where n: "n = Suc m" and m: "length (extraDBFiles v) - Suc k + 2 \<le> m"
    using Suc.prems(2) Suc.hyps(2) by (cases n) simp_all
  have d: "d = length (extraDBFiles v) - Suc k" using Suc.hyps(2) by simp
  have ih: "call_run m v key (next_load v (int k)) =
      (snd (ValidateDerivedKey_extras dv key (int k + 1) (drop (Suc k) (extraDBFiles v)) v),
       Returned (fst (ValidateDerivedKey_extras dv key (int k + 1) (drop (Suc k) (extraDBFiles v)) v)))"
    using Suc.hyps(1) [OF d _ m] k by (simp add: add.commute)
  have m2: "2 \<le> m" using m by simp
  show ?case
    unfolding nl n dr
    by (simp add: assms(1) pg ih call_run_LoadOrStore [OF m2])
qed

lemma call_run_sequential:
  "call_run (length (extraDBFiles v) + 3) v key (call_start v) =
     (snd (ValidateDerivedKey v key), Returned (fst (ValidateDerivedKey v key)))"
proof (cases "dec_ValidateDerivedKey (decryptor v)")
  case None
  then show ?thesis
    by (simp add: call_start_def ValidateDerivedKey_def call_run_Returned)
next
  case (Some dv)
  define N where "N = length (extraDBFiles v) + 2"
  have fuel: "length (extraDBFiles v) + 3 = Suc N" by (simp add: N_def)
  have ex: "call_run N v key (next_load v (-1)) =
      (snd (ValidateDerivedKey_extras dv key 0 (extraDBFiles v) v),
       Returned (fst (ValidateDerivedKey_extras dv key 0 (extraDBFiles v) v)))"
    using call_run_extras [OF Some, of 0 N key] by (simp add: N_def)
  have st: "call_run N v key (AtLoadOrStore (-1)) = (LoadOrStore_AddInt32 v (-1), Returned True)"
    by (rule call_run_LoadOrStore) (simp add: N_def)
  have pg: "page_of v (-1) = FirstPage (dbFile v)"
    by (simp add: page_of_def)
  have step1: "call_run (Suc N) v key (AtLoad (-1)) =
      (if -1 \<in> matchedDBs v then call_run N v key (next_load v (-1))
       else if dv (FirstPage (dbFile v)) key then call_run N v key (AtLoadOrStore (-1))
       else call_run N v key (next_load v (-1)))"
    by (simp add: Some pg)
  show ?thesis
    unfolding fuel by (simp add: call_start_def ValidateDerivedKey_def Some step1 ex st del: call_run.simps)
qed

subsubsection \<open>Every newly matched database is counted once\<close>

text \<open>
  The invariant of the system started from the validator \<open>v0\<close>: the matched set only grows;
  for every index, the increments executed for it plus the increments pending for it are
  one if the index has been newly matched and none otherwise; \<open>matchedCount\<close> is its initial
  value plus the number of increments executed.
\<close>

definition counted_once :: "Validator \<Rightarrow> system \<Rightarrow> bool" where
  "counted_once v0 s =
     (matchedDBs v0 \<subseteq> matchedDBs (sys_validator s) \<and>
      (\<forall>i. count_list (sys_added s) i + pending i (sys_calls s) =
           (if i \<in> matchedDBs (sys_validator s) \<and> i \<notin> matchedDBs v0 then 1 else 0)) \<and>
      matchedCount (sys_validator s) = matchedCount v0 + of_nat (length (sys_added s)))"

lemma length_filter_update:
  assumes "t < length xs"
  shows "length (filter P (xs [t := y])) + (if P (xs ! t) then 1 else 0) =
         length (filter P xs) + (if P y then 1 else 0)"
  using assms
proof (induction xs arbitrary: t)
  case Nil
  then show ?case by simp
next
  case (Cons x xs)
  show ?case
  proof (cases t)
    case 0
    then show ?thesis by simp
  next
    case (Suc t')
    with Cons.prems have "t' < length xs" by simp
    from Cons.IH [OF this] Suc show ?thesis by simp
  qed
qed

lemma pending_update:
  assumes "t < length cs" and "cs ! t = (key, pc)"
  shows "pending i (cs [t := (key, pc')]) + (if pc = AtAddInt32 i then 1 else 0) =
         pending i cs + (if pc' = AtAddInt32 i then 1 else 0)"
  using length_filter_update [OF assms(1), of "\<lambda>c. snd c = AtAddInt32 i" "(key, pc')"] assms(2)
  by (simp add: pending_def)

lemma pending_append: "pending i (cs @ [(key, pc)]) = pending i cs + (if pc = AtAddInt32 i then 1 else 0)"
  by (simp add: pending_def)

lemma call_start_not_pending: "call_start v \<noteq> AtAddInt32 i"
  by (simp add: call_start_def split: option.splits)

lemma next_load_not_pending: "next_load v j \<noteq> AtAddInt32 i"
  by (simp add: next_load_def)

lemma counted_once_start: "counted_once v (system_start v)"
  by (simp add: counted_once_def system_start_def pending_def)

lemma counted_once_step:
  assumes inv: "counted_once v0 s"
  shows "counted_once v0 (system_step s a)"
proof (cases a)
  case (Call key)
  with inv show ?thesis
    by (simp add: counted_once_def pending_append call_start_not_pending)
next
  case (Step t)
  show ?thesis
  proof (cases "t < length (sys_calls s)")
    case False
    with inv Step show ?thesis by simp
  next
    case True
    obtain key pc where c: "sys_calls s ! t = (key, pc)" by (cases "sys_calls s ! t")
    let ?v = "sys_validator s"
    note upd = pending_update [OF True c]
    from inv have sub: "matchedDBs v0 \<subseteq> matchedDBs ?v"
      and cnt: "\<And>i. count_list (sys_added s) i + pending i (sys_calls s) =
           (if i \<in> matchedDBs ?v \<and> i \<notin> matchedDBs v0 then 1 else 0)"
      and mc: "matchedCount ?v = matchedCount v0 + of_nat (length (sys_added s))"
      by (simp_all add: counted_once_def)
    show ?thesis
    proof (cases pc)
      case (AtLoad j)
      have same: "fst (call_step ?v key pc) = ?v"
        unfolding AtLoad by (simp split: option.splits)
      have np: "snd (call_step ?v key pc) \<noteq> AtAddInt32 i" for i
        unfolding AtLoad by (simp add: next_load_not_pending split: option.splits)
      have "pending i ((sys_calls s) [t := (key, snd (call_step ?v key pc))]) =
          pending i (sys_calls s)" for i
        using upd [of i "snd (call_step ?v key pc)"] np [of i] AtLoad by simp
      then show ?thesis
        using Step True c same sub cnt mc AtLoad
        by (simp add: counted_once_def)
    next
      case (AtLoadOrStore j)
      show ?thesis
      proof (cases "j \<in> matchedDBs ?v")
        case matched: True
        have "pending i ((sys_calls s) [t := (key, Returned True)]) = pending i (sys_calls s)" for i
          using upd [of i "Returned True"] AtLoadOrStore by simp
        then show ?thesis
          using Step True c matched sub cnt mc AtLoadOrStore
          by (simp add: counted_once_def)
      next
        case new: False
        have p: "pending i ((sys_calls s) [t := (key, AtAddInt32 j)]) =
            pending i (sys_calls s) + (if i = j then 1 else 0)" for i
          using upd [of i "AtAddInt32 j"] AtLoadOrStore by auto
        have j0: "j \<notin> matchedDBs v0" using new sub by blast
        have "count_list (sys_added s) i +
              (pending i (sys_calls s) + (if i = j then 1 else 0)) =
              (if i \<in> insert j (matchedDBs ?v) \<and> i \<notin> matchedDBs v0 then 1 else 0)" for i
          using cnt [of i] new j0 by auto
        then show ?thesis
          using Step True c new sub mc AtLoadOrStore p
          by (auto simp: counted_once_def)
      qed
    next
      case (AtAddInt32 j)
      have p: "pending i ((sys_calls s) [t := (key, Returned True)]) + (if i = j then 1 else 0) =
          pending i (sys_calls s)" for i
        using upd [of i "Returned True"] AtAddInt32 by auto
      have "count_list (sys_added s @ [j]) i +
            pending i ((sys_calls s) [t := (key, Returned True)]) =
            (if i \<in> matchedDBs ?v \<and> i \<notin> matchedDBs v0 then 1 else 0)" for i
        using cnt [of i] p [of i] by (simp split: if_splits)
      then show ?thesis
        using Step True c sub mc AtAddInt32
        by (simp add: counted_once_def)
    next
      case (Returned b)
      have "pending i ((sys_calls s) [t := (key, Returned b)]) = pending i (sys_calls s)" for i
        using upd [of i "Returned b"] Returned by simp
      then show ?thesis
        using Step True c sub cnt mc Returned
        by (simp add: counted_once_def)
    qed
  qed
qed

lemma counted_once_run: "counted_once v (run_schedule v schedule)"
proof -
  have "counted_once v (foldl system_step s schedule)" if "counted_once v s" for s
    using that by (induction schedule arbitrary: s) (simp_all add: counted_once_step)
  from this [OF counted_once_start] show ?thesis
    by (simp add: run_schedule_def)
qed

lemma quiescent_pending: "quiescent s \<Longrightarrow> pending i (sys_calls s) = 0"
  by (auto simp: quiescent_def pending_def list_all_iff filter_empty_conv split: call_pc.splits)

text \<open>
  Claim C2. \<^verbatim>\<open>ValidateDerivedKey(key)\<close> tries the first page of the primary database
  (index \<open>-1\<close>) first and then each extra database in order, skipping the indices already
  matched; at the first page that authenticates the key it marks that index, adds one to
  \<open>matchedCount\<close> and returns true; it returns false, changing nothing, when no unmatched
  database authenticates the key. A call running alone through its atomic steps is this
  function. Under any interleaving of the atomic steps of any number of calls, for every
  database index the increments of \<open>matchedCount\<close> executed for it and those still pending
  add up to one if the index has been newly matched and to none otherwise, and
  \<open>matchedCount\<close> is its initial value plus the number of increments executed: once all
  calls have returned, each newly matched index has been counted exactly once.
\<close>

theorem ValidateDerivedKey_first_unmatched:
  "ValidateDerivedKey v key = ValidateDerivedKey_spec v key \<and>
   call_run (length (extraDBFiles v) + 3) v key (call_start v) =
     (snd (ValidateDerivedKey v key), Returned (fst (ValidateDerivedKey v key))) \<and>
   (\<forall>i. count_list (sys_added (run_schedule v schedule)) i +
          pending i (sys_calls (run_schedule v schedule)) =
        (if i \<in> matchedDBs (sys_validator (run_schedule v schedule)) \<and> i \<notin> matchedDBs v
         then 1 else 0)) \<and>
   matchedCount (sys_validator (run_schedule v schedule)) =
     matchedCount v + of_nat (length (sys_added (run_schedule v schedule))) \<and>
   (quiescent (run_schedule v schedule) \<longrightarrow>
      (\<forall>i. count_list (sys_added (run_schedule v schedule)) i =
           (if i \<in> matchedDBs (sys_validator (run_schedule v schedule)) \<and> i \<notin> matchedDBs v
            then 1 else 0)))"
proof -
  note inv = counted_once_run [of v schedule, unfolded counted_once_def]
  have q: "\<forall>i. count_list (sys_added (run_schedule v schedule)) i =
           (if i \<in> matchedDBs (sys_validator (run_schedule v schedule)) \<and> i \<notin> matchedDBs v
            then 1 else 0)"
    if "quiescent (run_schedule v schedule)"
  proof
    fix i
    from inv have "count_list (sys_added (run_schedule v schedule)) i +
          pending i (sys_calls (run_schedule v schedule)) =
        (if i \<in> matchedDBs (sys_validator (run_schedule v schedule)) \<and> i \<notin> matchedDBs v
         then 1 else 0)"
      by blast
    then show "count_list (sys_added (run_schedule v schedule)) i =
           (if i \<in> matchedDBs (sys_validator (run_schedule v schedule)) \<and> i \<notin> matchedDBs v
            then 1 else 0)"
      using quiescent_pending [OF that, of i] by simp
  qed
  from inv q show ?thesis
    using ValidateDerivedKey_refines [of v key] call_run_sequential [of v key] by blast
qed

text \<open>
  An instance: two calls with the key of the primary database race. Both load index \<open>-1\<close>
  before either stores it, and both authenticate the key; the first \<^verbatim>\<open>LoadOrStore\<close> stores
  the index, the second finds it stored and returns without counting; the first then
  counts. Both return true and \<open>matchedCount\<close> is 1.
\<close>

definition race_schedule :: "action list" where
  "race_schedule = [Call [1, 1], Call [1, 1], Step 0, Step 1, Step 0, Step 1, Step 0]"

lemma race_run:
  "sys_added (run_schedule toy_validator race_schedule) = [-1] \<and>
   matchedCount (sys_validator (run_schedule toy_validator race_schedule)) = 1 \<and>
   matchedDBs (sys_validator (run_schedule toy_validator race_schedule)) = {-1} \<and>
   map snd (sys_calls (run_schedule toy_validator race_schedule)) = [Returned True, Returned True] \<and>
   quiescent (run_schedule toy_validator race_schedule)"
  by code_simp

lemma toy_sequential:
  "fst (ValidateDerivedKey toy_validator [1, 1]) = True \<and>
   matchedDBs (snd (ValidateDerivedKey toy_validator [1, 1])) = {-1} \<and>
   matchedCount (snd (ValidateDerivedKey toy_validator [1, 1])) = 1"
  by code_simp

theorem ValidateDerivedKey_first_unmatched_witness:
  "fst (ValidateDerivedKey toy_validator [1, 1]) = True \<and>
   matchedDBs (snd (ValidateDerivedKey toy_validator [1, 1])) = {-1} \<and>
   matchedCount (snd (ValidateDerivedKey toy_validator [1, 1])) = 1 \<and>
   ValidateDerivedKey_spec toy_validator [1, 1] = ValidateDerivedKey toy_validator [1, 1] \<and>
   quiescent (run_schedule toy_validator race_schedule) \<and>
   map snd (sys_calls (run_schedule toy_validator race_schedule)) = [Returned True, Returned True] \<and>
   matchedDBs (sys_validator (run_schedule toy_validator race_schedule)) = {-1} \<and>
   matchedCount (sys_validator (run_schedule toy_validator race_schedule)) = 1 \<and>
   count_list (sys_added (run_schedule toy_validator race_schedule)) (-1) = 1 \<and>
   count_list (sys_added (run_schedule toy_validator race_schedule)) 0 = 0"
  using ValidateDerivedKey_first_unmatched [of toy_validator "[1, 1]" race_schedule]
    race_run toy_sequential
  by simp

subsection \<open>The version-4 extractor\<close>

record KeyPatternInfo =
  Pattern :: "byte list"
  Offsets :: "int list"

definition V4KeyPatterns :: "KeyPatternInfo list" where
  "V4KeyPatterns =
     [\<lparr> Pattern = [0x20, 0x66, 0x74, 0x73, 0x35, 0x28, 0x25, 0x00], Offsets = [16, -80, 64] \<rparr>,
      \<lparr> Pattern = [0x00, 0x00, 0x00, 0x00, 0x00, 0x00, 0x00, 0x00,
                   0x00, 0x00, 0x00, 0x00, 0x00, 0x00, 0x00, 0x00], Offsets = [-32] \<rparr>]"

definition V4DerivedKeyPatterns :: "KeyPatternInfo list" where
  "V4DerivedKeyPatterns =
     [\<lparr> Pattern = [0x41, 0x58, 0x54, 0x4d, 0x00, 0x00, 0x00, 0x00], Offsets = [-32] \<rparr>]"

definition V4ImgKeyPatterns :: "KeyPatternInfo list" where
  "V4ImgKeyPatterns =
     [\<lparr> Pattern = [0x00, 0x00, 0x00, 0x00, 0x00, 0x00, 0x00, 0x00,
                   0x00, 0x00, 0x00, 0x00, 0x00, 0x00, 0x00, 0x00], Offsets = [-32] \<rparr>]"

text \<open>
  The struct \<^verbatim>\<open>V4Extractor\<close>. \<open>validator\<close> is a pointer, nil until \<^verbatim>\<open>SetValidate\<close>; the
  validator it points to is kept in the field, and a call that mutates the validator
  stores the new state there. The four \<^verbatim>\<open>sync.Map\<close>s map a hex string to \<^verbatim>\<open>true\<close> and are
  kept as sets of hex strings.
\<close>

record V4Extractor =
  validator :: "Validator option"
  dataKeyPatterns :: "KeyPatternInfo list"
  derivedKeyPatterns :: "KeyPatternInfo list"
  imgKeyPatterns :: "KeyPatternInfo list"
  processedDataKeys :: "string set"
  processedDerivedKeys :: "string set"
  processedImgKeys :: "string set"
  foundDerivedKeys :: "string set"

definition NewV4Extractor :: V4Extractor where
  "NewV4Extractor =
     \<lparr> validator = None, dataKeyPatterns = V4KeyPatterns,
       derivedKeyPatterns = V4DerivedKeyPatterns, imgKeyPatterns = V4ImgKeyPatterns,
       processedDataKeys = {}, processedDerivedKeys = {}, processedImgKeys = {},
       foundDerivedKeys = {} \<rparr>"

definition SetValidate :: "V4Extractor \<Rightarrow> Validator \<Rightarrow> V4Extractor" where
  "SetValidate e v = e \<lparr> validator := Some v \<rparr>"

text \<open>
  A loop body either goes on to the next iteration with a new state, or leaves the
  function with a result, or panics.
\<close>

datatype ('s, 'r) iteration = Continue 's | Return 'r | Panic panic

subsubsection \<open>SearchAllDerivedKeys\<close>

text \<open>
  The state of the scan is the counter \<^verbatim>\<open>count\<close>, the extractor, and the list of the keys
  passed to \<^verbatim>\<open>validator.ValidateDerivedKey\<close> so far. The context is the boolean "is
  cancelled": the \<^verbatim>\<open>select\<close> with a \<^verbatim>\<open>default\<close> branch returns exactly when
  \<^verbatim>\<open>ctx.Done()\<close> is closed. One iteration of
  \<^verbatim>\<open>for pos := 0; pos+32 <= len(memory); pos += 8\<close>:
\<close>

type_synonym scan_state = "nat \<times> V4Extractor \<times> byte list list"

text \<open>A method call through the pointer \<^verbatim>\<open>e.validator\<close> panics when the pointer is nil.\<close>

definition validator_AllDerivedKeysFound :: "V4Extractor \<Rightarrow> panic + bool" where
  "validator_AllDerivedKeysFound e =
     (case validator e of
        None \<Rightarrow> Inl NilPointerDereference
      | Some v \<Rightarrow> Inr (AllDerivedKeysFound v))"

definition SearchAllDerivedKeys_body ::
  "bool \<Rightarrow> byte list \<Rightarrow> nat \<Rightarrow> scan_state \<Rightarrow> (scan_state, scan_state) iteration" where
  "SearchAllDerivedKeys_body ctx memory pos st =
     (case st of (count, e, calls) \<Rightarrow>
        if pos mod (8 * 1024) = 0 \<and> ctx then Return (count, e, calls)
        else
          (case (if pos mod (8 * 1024) = 0 then validator_AllDerivedKeysFound e
                 else Inr False) of
             Inl p \<Rightarrow> Panic p
           | Inr True \<Rightarrow> Return (count, e, calls)
           | Inr False \<Rightarrow>
               (case subslice memory (int pos) (int pos + 32) of
                  Inl p \<Rightarrow> Panic p
                | Inr keyData \<Rightarrow>
                    let zeroCount = length (filter (\<lambda>b. b = 0) keyData) in
                    if zeroCount > 24 then Continue (count, e, calls)
                    else
                      let keyHex = EncodeToString keyData in
                      if keyHex \<in> processedDerivedKeys e then Continue (count, e, calls)
                      else
                        let e = e \<lparr> processedDerivedKeys :=
                                      insert keyHex (processedDerivedKeys e) \<rparr>
                        in (case validator e of
                              None \<Rightarrow> Panic NilPointerDereference
                            | Some v \<Rightarrow>
                                let r = ValidateDerivedKey v keyData;
                                    e = e \<lparr> validator := Some (snd r) \<rparr>
                                in if fst r then
                                     Continue (count + 1,
                                       e \<lparr> foundDerivedKeys :=
                                             insert keyHex (foundDerivedKeys e) \<rparr>,
                                       calls @ [keyData])
                                   else Continue (count, e, calls @ [keyData])))))"

function SearchAllDerivedKeys_loop ::
  "bool \<Rightarrow> byte list \<Rightarrow> nat \<Rightarrow> scan_state \<Rightarrow> panic + scan_state" where
  "SearchAllDerivedKeys_loop ctx memory pos st =
     (if pos + 32 \<le> length memory then
        (case SearchAllDerivedKeys_body ctx memory pos st of
           Continue st' \<Rightarrow> SearchAllDerivedKeys_loop ctx memory (pos + 8) st'
         | Return r \<Rightarrow> Inr r
         | Panic p \<Rightarrow> Inl p)
      else Inr st)"
  by pat_completeness auto
termination
  by (relation "measure (\<lambda>(ctx, memory, pos, st). length memory - pos)") auto

declare SearchAllDerivedKeys_loop.simps [simp del]

definition SearchAllDerivedKeys :: "bool \<Rightarrow> byte list \<Rightarrow> V4Extractor \<Rightarrow> panic + scan_state" where
  "SearchAllDerivedKeys ctx memory e =
     (if length memory < 32 then Inr (0, e, [])
      else SearchAllDerivedKeys_loop ctx memory 0 (0, e, []))"

subsubsection \<open>SearchKey\<close>

text \<open>
  The state of the search is the extractor and the list of the keys passed to
  \<^verbatim>\<open>validator.Validate\<close> so far; the result of the Go function is the pair
  \<^verbatim>\<open>(string, bool)\<close>.
\<close>

type_synonym key_state = "V4Extractor \<times> byte list list"
type_synonym key_result = "(string \<times> bool) \<times> key_state"

text \<open>One iteration of \<^verbatim>\<open>for _, offset := range keyPattern.Offsets\<close>.\<close>

definition SearchKey_candidate ::
  "byte list \<Rightarrow> int \<Rightarrow> int \<Rightarrow> key_state \<Rightarrow> (key_state, key_result) iteration" where
  "SearchKey_candidate memory index offset st =
     (case st of (e, calls) \<Rightarrow>
        let keyOffset = index + offset in
        if keyOffset < 0 \<or> keyOffset + 32 > int (length memory) then Continue (e, calls)
        else
          (case subslice memory keyOffset (keyOffset + 32) of
             Inl p \<Rightarrow> Panic p
           | Inr keyData \<Rightarrow>
               if Contains keyData [0x00, 0x00] then Continue (e, calls)
               else
                 let keyHex = EncodeToString keyData in
                 if keyHex \<in> processedDataKeys e then Continue (e, calls)
                 else
                   let e = e \<lparr> processedDataKeys := insert keyHex (processedDataKeys e) \<rparr>
                   in (case validator e of
                         None \<Rightarrow> Panic NilPointerDereference
                       | Some v \<Rightarrow>
                           if Validate v keyData
                           then Return ((keyHex, True), e, calls @ [keyData])
                           else Continue (e, calls @ [keyData]))))"

fun SearchKey_offsets ::
  "byte list \<Rightarrow> int \<Rightarrow> int list \<Rightarrow> key_state \<Rightarrow> (key_state, key_result) iteration" where
  "SearchKey_offsets memory index [] st = Continue st"
| "SearchKey_offsets memory index (offset # rest) st =
     (case SearchKey_candidate memory index offset st of
        Continue st' \<Rightarrow> SearchKey_offsets memory index rest st'
      | Return r \<Rightarrow> Return r
      | Panic p \<Rightarrow> Panic p)"

text \<open>
  The head of the loop \<^verbatim>\<open>for { ... }\<close>: the position of the last occurrence of the
  pattern in \<^verbatim>\<open>memory[:index]\<close> and, for the pattern of sixteen zero bytes, its
  alignment after the last non-zero code point before it. \<open>None\<close> is \<^verbatim>\<open>break\<close>.
\<close>

definition SearchKey_anchor :: "byte list \<Rightarrow> byte list \<Rightarrow> bool \<Rightarrow> int \<Rightarrow> panic + int option" where
  "SearchKey_anchor memory pattern zeroPattern index =
     (case subslice memory 0 index of
        Inl p \<Rightarrow> Inl p
      | Inr s \<Rightarrow>
          let index = LastIndex s pattern in
          if index = -1 then Inr None
          else if zeroPattern then
            (case subslice memory 0 index of
               Inl p \<Rightarrow> Inl p
             | Inr s \<Rightarrow>
                 let index = LastIndexFunc s (\<lambda>r. r \<noteq> 0) in
                 if index = -1 then Inr None else Inr (Some (index + 1)))
          else Inr (Some index))"

lemma LastIndex_from_bounds:
  "LastIndex_from s sep n = -1 \<or> (0 \<le> LastIndex_from s sep n \<and> LastIndex_from s sep n \<le> int n)"
  by (induction n) auto

lemma LastIndex_bounds:
  "LastIndex s sep = -1 \<or> (0 \<le> LastIndex s sep \<and> LastIndex s sep \<le> int (length s))"
  using LastIndex_from_bounds [of s sep "length s - length sep"]
  by (auto simp: LastIndex_def)

lemma lastIndexFunc_bounds:
  "lastIndexFunc s f i = -1 \<or> (0 \<le> lastIndexFunc s f i \<and> lastIndexFunc s f i < int i)"
proof (induction s f i rule: lastIndexFunc.induct)
  case (1 s f i)
  show ?case
  proof (cases "0 < i \<and> i \<le> length s")
    case True
    then have sz: "1 \<le> snd (lastRune s i) \<and> snd (lastRune s i) \<le> i"
      using lastRune_size [of i s] by simp
    show ?thesis
    proof (cases "f (fst (lastRune s i))")
      case True
      with \<open>0 < i \<and> i \<le> length s\<close> sz show ?thesis
        by (subst (1 2 3) lastIndexFunc.simps) (simp add: Let_def)
    next
      case False
      with "1.IH" [OF \<open>0 < i \<and> i \<le> length s\<close> refl refl False] sz
        \<open>0 < i \<and> i \<le> length s\<close>
      show ?thesis
        by (subst (1 2 3) lastIndexFunc.simps) (auto simp: Let_def)
    qed
  next
    case False
    then show ?thesis by (subst lastIndexFunc.simps) auto
  qed
qed

lemma LastIndexFunc_bounds:
  "LastIndexFunc s f = -1 \<or> (0 \<le> LastIndexFunc s f \<and> LastIndexFunc s f < int (length s))"
  unfolding LastIndexFunc_def by (rule lastIndexFunc_bounds)

lemma subslice_Inr_iff:
  "subslice s lo hi = Inr t \<longleftrightarrow>
     0 \<le> lo \<and> lo \<le> hi \<and> hi \<le> int (length s) \<and> t = take (nat (hi - lo)) (drop (nat lo) s)"
  by (auto simp: subslice_def)

lemma SearchKey_anchor_bounds:
  assumes "SearchKey_anchor memory pattern zeroPattern index = Inr (Some index')"
  shows "0 \<le> index' \<and> index' \<le> index \<and> index \<le> int (length memory)"
proof -
  obtain s where s: "subslice memory 0 index = Inr s"
    using assms by (cases "subslice memory 0 index") (simp_all add: SearchKey_anchor_def)
  then have len: "int (length s) = index" and rng: "0 \<le> index" "index \<le> int (length memory)"
    by (auto simp: subslice_Inr_iff)
  let ?i = "LastIndex s pattern"
  have i: "?i \<noteq> -1" using assms s by (auto simp: SearchKey_anchor_def Let_def)
  with LastIndex_bounds [of s pattern] len have ib: "0 \<le> ?i" "?i \<le> index" by auto
  show ?thesis
  proof (cases zeroPattern)
    case False
    then have "index' = ?i" using assms s i by (simp add: SearchKey_anchor_def Let_def)
    with ib rng show ?thesis by simp
  next
    case True
    obtain s' where s': "subslice memory 0 ?i = Inr s'"
      using ib rng by (auto simp: subslice_def)
    then have len': "int (length s') = ?i" by (auto simp: subslice_Inr_iff)
    let ?j = "LastIndexFunc s' (\<lambda>r. r \<noteq> 0)"
    have "?j \<noteq> -1 \<and> index' = ?j + 1"
      using assms s s' i True by (auto simp: SearchKey_anchor_def Let_def split: if_splits)
    with LastIndexFunc_bounds [of s' "\<lambda>r. r \<noteq> 0"] len' ib rng show ?thesis by auto
  qed
qed

function SearchKey_scan ::
  "bool \<Rightarrow> byte list \<Rightarrow> KeyPatternInfo \<Rightarrow> bool \<Rightarrow> int \<Rightarrow> key_state \<Rightarrow>
   (key_state, key_result) iteration" where
  "SearchKey_scan ctx memory keyPattern zeroPattern index st =
     (if ctx then Return (('''', False), st)
      else
        (case SearchKey_anchor memory (Pattern keyPattern) zeroPattern index of
           Inl p \<Rightarrow> Panic p
         | Inr None \<Rightarrow> Continue st
         | Inr (Some index') \<Rightarrow>
             (case SearchKey_offsets memory index' (Offsets keyPattern) st of
                Continue st' \<Rightarrow>
                  if index' - 1 < 0 then Continue st'
                  else SearchKey_scan ctx memory keyPattern zeroPattern (index' - 1) st'
              | Return r \<Rightarrow> Return r
              | Panic p \<Rightarrow> Panic p)))"
  by pat_completeness auto
termination
proof (relation "measure (\<lambda>(ctx, memory, keyPattern, zeroPattern, index, st). nat index)")
  show "wf (measure (\<lambda>(ctx, memory, keyPattern, zeroPattern, index, st). nat index))" by simp
next
  fix ctx :: bool and memory :: "byte list" and keyPattern :: KeyPatternInfo
    and zeroPattern :: bool and index :: int and st :: key_state
    and x2 :: "int option" and index' :: int and st' :: key_state
  assume "SearchKey_anchor memory (Pattern keyPattern) zeroPattern index = Inr x2"
    and "x2 = Some index'" and "\<not> index' - 1 < 0"
  then show "((ctx, memory, keyPattern, zeroPattern, index' - 1, st'),
              (ctx, memory, keyPattern, zeroPattern, index, st))
             \<in> measure (\<lambda>(ctx, memory, keyPattern, zeroPattern, index, st). nat index)"
    using SearchKey_anchor_bounds [of memory "Pattern keyPattern" zeroPattern index index']
    by simp
qed

declare SearchKey_scan.simps [simp del]

text \<open>
  \<^verbatim>\<open>for _, keyPattern := range e.dataKeyPatterns\<close>, with \<^verbatim>\<open>index := len(memory)\<close> and
  \<^verbatim>\<open>zeroPattern := bytes.Equal(keyPattern.Pattern, ...)\<close> at the head of each iteration, and
  the final \<^verbatim>\<open>return "", false\<close>.
\<close>

fun SearchKey_patterns ::
  "bool \<Rightarrow> byte list \<Rightarrow> KeyPatternInfo list \<Rightarrow> key_state \<Rightarrow> panic + key_result" where
  "SearchKey_patterns ctx memory [] st = Inr (('''', False), st)"
| "SearchKey_patterns ctx memory (keyPattern # rest) st =
     (let index = int (length memory);
          zeroPattern = (Pattern keyPattern = [0x00, 0x00, 0x00, 0x00, 0x00, 0x00, 0x00, 0x00,
                                               0x00, 0x00, 0x00, 0x00, 0x00, 0x00, 0x00, 0x00])
      in case SearchKey_scan ctx memory keyPattern zeroPattern index st of
           Continue st' \<Rightarrow> SearchKey_patterns ctx memory rest st'
         | Return r \<Rightarrow> Inr r
         | Panic p \<Rightarrow> Inl p)"

definition SearchKey :: "bool \<Rightarrow> byte list \<Rightarrow> V4Extractor \<Rightarrow> panic + key_result" where
  "SearchKey ctx memory e = SearchKey_patterns ctx memory (dataKeyPatterns e) (e, [])"

subsubsection \<open>SearchImgKey\<close>

text \<open>
  The same search with the image-key patterns: the candidate has 16 bytes, the anchor is
  always aligned after the last non-zero code point, the set is \<open>processedImgKeys\<close> and
  the key goes to \<^verbatim>\<open>validator.ValidateImgKey\<close>.
\<close>

definition SearchImgKey_candidate ::
  "byte list \<Rightarrow> int \<Rightarrow> int \<Rightarrow> key_state \<Rightarrow> (key_state, key_result) iteration" where
  "SearchImgKey_candidate memory index offset st =
     (case st of (e, calls) \<Rightarrow>
        let keyOffset = index + offset in
        if keyOffset < 0 \<or> keyOffset + 16 > int (length memory) then Continue (e, calls)
        else
          (case subslice memory keyOffset (keyOffset + 16) of
             Inl p \<Rightarrow> Panic p
           | Inr keyData \<Rightarrow>
               if Contains keyData [0x00, 0x00] then Continue (e, calls)
               else
                 let keyHex = EncodeToString keyData in
                 if keyHex \<in> processedImgKeys e then Continue (e, calls)
                 else
                   let e = e \<lparr> processedImgKeys := insert keyHex (processedImgKeys e) \<rparr>
                   in (case validator e of
                         None \<Rightarrow> Panic NilPointerDereference
                       | Some v \<Rightarrow>
                           if ValidateImgKey v keyData
                           then Return ((keyHex, True), e, calls @ [keyData])
                           else Continue (e, calls @ [keyData]))))"

fun SearchImgKey_offsets ::
  "byte list \<Rightarrow> int \<Rightarrow> int list \<Rightarrow> key_state \<Rightarrow> (key_state, key_result) iteration" where
  "SearchImgKey_offsets memory index [] st = Continue st"
| "SearchImgKey_offsets memory index (offset # rest) st =
     (case SearchImgKey_candidate memory index offset st of
        Continue st' \<Rightarrow> SearchImgKey_offsets memory index rest st'
      | Return r \<Rightarrow> Return r
      | Panic p \<Rightarrow> Panic p)"

definition SearchImgKey_anchor :: "byte list \<Rightarrow> byte list \<Rightarrow> int \<Rightarrow> panic + int option" where
  "SearchImgKey_anchor memory pattern index =
     (case subslice memory 0 index of
        Inl p \<Rightarrow> Inl p
      | Inr s \<Rightarrow>
          let index = LastIndex s pattern in
          if index = -1 then Inr None
          else
            (case subslice memory 0 index of
               Inl p \<Rightarrow> Inl p
             | Inr s \<Rightarrow>
                 let index = LastIndexFunc s (\<lambda>r. r \<noteq> 0) in
                 if index = -1 then Inr None else Inr (Some (index + 1))))"

lemma SearchImgKey_anchor_eq:
  "SearchImgKey_anchor memory pattern index = SearchKey_anchor memory pattern True index"
  by (simp add: SearchImgKey_anchor_def SearchKey_anchor_def Let_def split: sum.splits)

function SearchImgKey_scan ::
  "bool \<Rightarrow> byte list \<Rightarrow> KeyPatternInfo \<Rightarrow> int \<Rightarrow> key_state \<Rightarrow>
   (key_state, key_result) iteration" where
  "SearchImgKey_scan ctx memory keyPattern index st =
     (if ctx then Return (('''', False), st)
      else
        (case SearchImgKey_anchor memory (Pattern keyPattern) index of
           Inl p \<Rightarrow> Panic p
         | Inr None \<Rightarrow> Continue st
         | Inr (Some index') \<Rightarrow>
             (case SearchImgKey_offsets memory index' (Offsets keyPattern) st of
                Continue st' \<Rightarrow>
                  if index' - 1 < 0 then Continue st'
                  else SearchImgKey_scan ctx memory keyPattern (index' - 1) st'
              | Return r \<Rightarrow> Return r
              | Panic p \<Rightarrow> Panic p)))"
  by pat_completeness auto
termination
proof (relation "measure (\<lambda>(ctx, memory, keyPattern, index, st). nat index)")
  show "wf (measure (\<lambda>(ctx, memory, keyPattern, index, st). nat index))" by simp
next
  fix ctx :: bool and memory :: "byte list" and keyPattern :: KeyPatternInfo
    and index :: int and st :: key_state
    and x2 :: "int option" and index' :: int and st' :: key_state
  assume "SearchImgKey_anchor memory (Pattern keyPattern) index = Inr x2"
    and "x2 = Some index'" and "\<not> index' - 1 < 0"
  then show "((ctx, memory, keyPattern, index' - 1, st'), (ctx, memory, keyPattern, index, st))
             \<in> measure (\<lambda>(ctx, memory, keyPattern, index, st). nat index)"
    using SearchKey_anchor_bounds [of memory "Pattern keyPattern" True index index']
    by (simp add: SearchImgKey_anchor_eq)
qed

declare SearchImgKey_scan.simps [simp del]

fun SearchImgKey_patterns ::
  "bool \<Rightarrow> byte list \<Rightarrow> KeyPatternInfo list \<Rightarrow> key_state \<Rightarrow> panic + key_result" where
  "SearchImgKey_patterns ctx memory [] st = Inr (('''', False), st)"
| "SearchImgKey_patterns ctx memory (keyPattern # rest) st =
     (let index = int (length memory)
      in case SearchImgKey_scan ctx memory keyPattern index st of
           Continue st' \<Rightarrow> SearchImgKey_patterns ctx memory rest st'
         | Return r \<Rightarrow> Inr r
         | Panic p \<Rightarrow> Inl p)"

definition SearchImgKey :: "bool \<Rightarrow> byte list \<Rightarrow> V4Extractor \<Rightarrow> panic + key_result" where
  "SearchImgKey ctx memory e = SearchImgKey_patterns ctx memory (imgKeyPatterns e) (e, [])"

subsubsection \<open>Extract\<close>

text \<open>
  \<^verbatim>\<open>Extract\<close> starts the producer and the workers and then loops on a \<^verbatim>\<open>select\<close> over
  \<^verbatim>\<open>ctx.Done()\<close> and the result channel. The goroutines are not modelled; what the loop
  receives is: an event list gives, in order, what each \<^verbatim>\<open>select\<close> chose, either the
  cancellation of the context or a pair sent by a worker, and the end of the list is the
  closing of the result channel, which happens once all workers have finished.
  \<open>derivedKeys\<close> is what \<^verbatim>\<open>e.foundDerivedKeys.Range\<close> then enumerates, in the order in which
  it does. The three preconditions are \<^verbatim>\<open>proc.Status == model.StatusOffline\<close>,
  \<^verbatim>\<open>glance.IsSIPDisabled()\<close> and \<^verbatim>\<open>e.validator == nil\<close>.
\<close>

datatype extract_error =
  ErrWeChatOffline | ErrSIPEnabled | ErrValidatorNotSet | ErrNoValidKey | ContextErr

datatype chan_event = CtxDone | Result string string

fun Extract_loop ::
  "chan_event list \<Rightarrow> string list \<Rightarrow> string \<Rightarrow> string \<Rightarrow> extract_error + string \<times> string" where
  "Extract_loop [] derivedKeys finalRawDataKey finalImgKey =
     (let finalDataKey =
            (if length derivedKeys > 0 then ''derived:'' @ Join derivedKeys '',''
             else if finalRawDataKey \<noteq> '''' then finalRawDataKey
             else '''')
      in if finalDataKey \<noteq> '''' \<or> finalImgKey \<noteq> '''' then Inr (finalDataKey, finalImgKey)
         else Inl ErrNoValidKey)"
| "Extract_loop (CtxDone # events) derivedKeys finalRawDataKey finalImgKey = Inl ContextErr"
| "Extract_loop (Result r0 r1 # events) derivedKeys finalRawDataKey finalImgKey =
     (let finalRawDataKey = (if r0 \<noteq> '''' then r0 else finalRawDataKey);
          finalImgKey = (if r1 \<noteq> '''' then r1 else finalImgKey)
      in if finalRawDataKey \<noteq> '''' \<and> finalImgKey \<noteq> ''''
         then Inr (finalRawDataKey, finalImgKey)
         else Extract_loop events derivedKeys finalRawDataKey finalImgKey)"

definition Extract ::
  "V4Extractor \<Rightarrow> bool \<Rightarrow> bool \<Rightarrow> chan_event list \<Rightarrow> string list \<Rightarrow>
   extract_error + string \<times> string" where
  "Extract e offline sipDisabled events derivedKeys =
     (if offline then Inl ErrWeChatOffline
      else if \<not> sipDisabled then Inl ErrSIPEnabled
      else if validator e = None then Inl ErrValidatorNotSet
      else Extract_loop events derivedKeys '''' '''')"

subsection \<open>Facts about the hexadecimal encoding\<close>

lemma hextable_distinct: "distinct hextable" and hextable_length: "length hextable = 16"
  by (simp_all add: hextable_def)

lemma hextable_inj:
  assumes "i < 16" and "j < 16"
  shows "hextable ! i = hextable ! j \<longleftrightarrow> i = j"
  using assms nth_eq_iff_index_eq [OF hextable_distinct, of i j]
  by (simp add: hextable_length)

lemma EncodeToString_Nil: "EncodeToString [] = []"
  by (simp add: EncodeToString_def)

lemma EncodeToString_Cons:
  "EncodeToString (v # src) =
     hextable ! (unat v div 16) # hextable ! (unat v mod 16) # EncodeToString src"
  by (simp add: EncodeToString_def)

lemma byte_digits_eq:
  fixes a b :: byte
  assumes "unat a div 16 = unat b div 16" and "unat a mod 16 = unat b mod 16"
  shows "a = b"
proof -
  have "unat a = 16 * (unat a div 16) + unat a mod 16" by simp
  also have "\<dots> = 16 * (unat b div 16) + unat b mod 16" using assms by simp
  also have "\<dots> = unat b" by simp
  finally show ?thesis by (simp add: word_unat_eq_iff)
qed

lemma EncodeToString_inj: "EncodeToString a = EncodeToString b \<longleftrightarrow> a = b"
proof (induction a arbitrary: b)
  case Nil
  show ?case
  proof (cases b)
    case Nil
    then show ?thesis by simp
  next
    case (Cons y ys)
    then show ?thesis by (simp add: EncodeToString_Nil EncodeToString_Cons)
  qed
next
  case (Cons x xs)
  show ?case
  proof (cases b)
    case Nil
    then show ?thesis by (simp add: EncodeToString_Nil EncodeToString_Cons)
  next
    case (Cons y ys)
    have x: "unat x div 16 < 16" "unat x mod 16 < 16"
      using unsigned_less [of x, where ?'a = nat] by simp_all
    have y: "unat y div 16 < 16" "unat y mod 16 < 16"
      using unsigned_less [of y, where ?'a = nat] by simp_all
    show ?thesis
      using Cons.IH [of ys] x y byte_digits_eq [of x y]
      by (auto simp: Cons EncodeToString_Cons hextable_inj)
  qed
qed

subsection \<open>Properties of SearchAllDerivedKeys\<close>

lemma SearchAllDerivedKeys_body_cancelled:
  "pos mod (8 * 1024) = 0 \<Longrightarrow> SearchAllDerivedKeys_body True memory pos st = Return st"
  by (cases st) (simp add: SearchAllDerivedKeys_body_def)

lemma SearchAllDerivedKeys_cancelled_eq:
  "SearchAllDerivedKeys True memory e = Inr (0, e, [])"
proof (cases "length memory < 32")
  case True
  then show ?thesis by (simp add: SearchAllDerivedKeys_def)
next
  case False
  then show ?thesis
    by (simp add: SearchAllDerivedKeys_def SearchAllDerivedKeys_loop.simps [of True memory 0]
        SearchAllDerivedKeys_body_cancelled)
qed

text \<open>What one iteration can do to the state when it goes on.\<close>

lemma SearchAllDerivedKeys_body_Continue:
  assumes "SearchAllDerivedKeys_body ctx memory pos (count, e, calls) = Continue (count', e', calls')"
  shows "processedDerivedKeys e \<subseteq> processedDerivedKeys e'"
    and "validator e \<noteq> None \<Longrightarrow> validator e' \<noteq> None"
    and "length (filter (\<lambda>b. b = 0) (take 32 (drop pos memory))) > 24 \<or>
         EncodeToString (take 32 (drop pos memory)) \<in> processedDerivedKeys e'"
    and "pos mod (8 * 1024) = 0 \<Longrightarrow> \<not> ctx"
  using assms
  by (auto simp: SearchAllDerivedKeys_body_def subslice_def Let_def validator_AllDerivedKeysFound_def
      split: if_splits sum.splits bool.splits option.splits)

lemma SearchAllDerivedKeys_body_Return:
  assumes "SearchAllDerivedKeys_body ctx memory pos (count, e, calls) = Return r"
  shows "r = (count, e, calls) \<and> pos mod (8 * 1024) = 0 \<and>
         (ctx \<or> (\<exists>v. validator e = Some v \<and> AllDerivedKeysFound v))"
  using assms
  by (auto simp: SearchAllDerivedKeys_body_def subslice_def Let_def validator_AllDerivedKeysFound_def
      split: if_splits sum.splits bool.splits option.splits)

lemma SearchAllDerivedKeys_loop_mono:
  assumes "SearchAllDerivedKeys_loop ctx memory pos (count, e, calls) = Inr (count', e', calls')"
  shows "processedDerivedKeys e \<subseteq> processedDerivedKeys e' \<and>
         (validator e \<noteq> None \<longrightarrow> validator e' \<noteq> None)"
  using assms
proof (induction ctx memory pos "(count, e, calls)" arbitrary: count e calls
    rule: SearchAllDerivedKeys_loop.induct)
  case (1 ctx memory pos)
  show ?case
  proof (cases "pos + 32 \<le> length memory")
    case False
    with "1.prems" show ?thesis by (simp add: SearchAllDerivedKeys_loop.simps)
  next
    case True
    show ?thesis
    proof (cases "SearchAllDerivedKeys_body ctx memory pos (count, e, calls)")
      case (Continue st1)
      obtain c1 e1 k1 where st1: "st1 = (c1, e1, k1)" by (cases st1)
      have run: "SearchAllDerivedKeys_loop ctx memory (pos + 8) (c1, e1, k1) = Inr (count', e', calls')"
        using "1.prems" True Continue st1 by (simp add: SearchAllDerivedKeys_loop.simps [of ctx memory pos])
      from "1.hyps" [OF True Continue [unfolded st1] run]
        SearchAllDerivedKeys_body_Continue(1,2) [OF Continue [unfolded st1]]
      show ?thesis by auto
    next
      case (Return r)
      with "1.prems" True SearchAllDerivedKeys_body_Return [OF Return] show ?thesis
        by (simp add: SearchAllDerivedKeys_loop.simps [of ctx memory pos])
    next
      case (Panic p)
      with "1.prems" True show ?thesis
        by (simp add: SearchAllDerivedKeys_loop.simps [of ctx memory pos])
    qed
  qed
qed

text \<open>A window that is skipped leaves the state as it is.\<close>

lemma SearchAllDerivedKeys_body_skip:
  assumes "pos + 32 \<le> length memory"
      and "length (filter (\<lambda>b. b = 0) (take 32 (drop pos memory))) > 24 \<or>
           EncodeToString (take 32 (drop pos memory)) \<in> processedDerivedKeys e"
      and "validator e = Some v"
  shows "SearchAllDerivedKeys_body ctx memory pos (count, e, calls) =
           (if pos mod (8 * 1024) = 0 \<and> (ctx \<or> AllDerivedKeysFound v)
            then Return (count, e, calls) else Continue (count, e, calls))"
  using assms
  by (auto simp: SearchAllDerivedKeys_body_def subslice_def Let_def validator_AllDerivedKeysFound_def)

lemma SearchAllDerivedKeys_loop_again:
  assumes "SearchAllDerivedKeys_loop False memory pos (count, e, calls) = Inr (count', e', calls')"
      and "validator e \<noteq> None"
  shows "SearchAllDerivedKeys_loop ctx2 memory pos (c0, e', k0) = Inr (c0, e', k0)"
  using assms
proof (induction False memory pos "(count, e, calls)" arbitrary: count e calls
    rule: SearchAllDerivedKeys_loop.induct)
  case (1 memory pos)
  show ?case
  proof (cases "pos + 32 \<le> length memory")
    case False
    then show ?thesis by (simp add: SearchAllDerivedKeys_loop.simps)
  next
    case True
    from SearchAllDerivedKeys_loop_mono [OF "1.prems"(1)] "1.prems"(2)
    obtain v' where v': "validator e' = Some v'" by auto
    show ?thesis
    proof (cases "SearchAllDerivedKeys_body False memory pos (count, e, calls)")
      case (Continue st1)
      obtain c1 e1 k1 where st1: "st1 = (c1, e1, k1)" by (cases st1)
      have run: "SearchAllDerivedKeys_loop False memory (pos + 8) (c1, e1, k1) = Inr (count', e', calls')"
        using "1.prems" True Continue st1
        by (simp add: SearchAllDerivedKeys_loop.simps [of False memory pos])
      note b = SearchAllDerivedKeys_body_Continue [OF Continue [unfolded st1]]
      have ih: "SearchAllDerivedKeys_loop ctx2 memory (pos + 8) (c0, e', k0) = Inr (c0, e', k0)"
        using "1.hyps" [OF True Continue [unfolded st1] run] b(2) "1.prems"(2) by simp
      have "length (filter (\<lambda>b. b = 0) (take 32 (drop pos memory))) > 24 \<or>
            EncodeToString (take 32 (drop pos memory)) \<in> processedDerivedKeys e'"
        using b(3) SearchAllDerivedKeys_loop_mono [OF run] by auto
      from SearchAllDerivedKeys_body_skip [OF True this v', of ctx2 c0 k0] ih
      show ?thesis
        by (simp add: SearchAllDerivedKeys_loop.simps [of ctx2 memory pos] True)
    next
      case (Return r)
      from SearchAllDerivedKeys_body_Return [OF Return] "1.prems" True Return
      have "e' = e" and "pos mod (8 * 1024) = 0" and "\<exists>v. validator e = Some v \<and> AllDerivedKeysFound v"
        by (simp_all add: SearchAllDerivedKeys_loop.simps [of False memory pos])
      then have "SearchAllDerivedKeys_body ctx2 memory pos (c0, e', k0) = Return (c0, e', k0)"
        by (auto simp: SearchAllDerivedKeys_body_def validator_AllDerivedKeysFound_def)
      then show ?thesis
        by (simp add: SearchAllDerivedKeys_loop.simps [of ctx2 memory pos] True)
    next
      case (Panic p)
      with "1.prems" True show ?thesis
        by (simp add: SearchAllDerivedKeys_loop.simps [of False memory pos])
    qed
  qed
qed

text \<open>
  An instance for the scan: a version-4 validator with two databases, whose toy decryptor
  accepts the key of 32 bytes \<open>0x11\<close> for the primary database and the key of 32 bytes
  \<open>0x22\<close> for the extra one, and a chunk of 40 bytes with the two windows
  \<open>0x11 \<times> 32\<close> (a valid key) and \<open>0x11 \<times> 24, 0x22 \<times> 8\<close> (not a key).
\<close>

definition scan_primary :: DBFile where
  "scan_primary = \<lparr> Path = ''db_storage/message/message_0.db'', FirstPage = replicate 32 0x11 @ [0] \<rparr>"

definition scan_extra :: DBFile where
  "scan_extra = \<lparr> Path = ''db_storage/session/session.db'', FirstPage = replicate 32 0x22 @ [0] \<rparr>"

definition scan_validator :: Validator where
  "scan_validator =
     \<lparr> platform = ''darwin'', version = 4, decryptor = toy_decryptor,
       dbFile = scan_primary, extraDBFiles = [scan_extra],
       imgKeyValidator = Some (\<lambda>key. False), matchedDBs = {}, matchedCount = 0,
       totalDBCount = 2 \<rparr>"

lemma scan_validator_constructed:
  "NewValidatorWithFile ''darwin'' 4 (Inr toy_decryptor) (Inr scan_primary) (\<lambda>key. False)
     [scan_extra] = Inr scan_validator"
  by (simp add: NewValidatorWithFile_def scan_validator_def)

definition scan_extractor :: V4Extractor where
  "scan_extractor = SetValidate NewV4Extractor scan_validator"

definition scan_memory :: "byte list" where
  "scan_memory = replicate 32 0x11 @ replicate 8 0x22"

definition scan_extractor_after :: V4Extractor where
  "scan_extractor_after =
     scan_extractor
       \<lparr> validator := Some (scan_validator \<lparr> matchedDBs := {-1}, matchedCount := 1 \<rparr>),
         processedDerivedKeys :=
           {EncodeToString (replicate 24 0x11 @ replicate 8 0x22), EncodeToString (replicate 32 0x11)},
         foundDerivedKeys := {EncodeToString (replicate 32 0x11)} \<rparr>"

lemma replicate_numeral: "replicate (numeral n) x = x # replicate (pred_numeral n) x"
  by (simp add: numeral_eq_Suc)

lemma scan_first:
  "SearchAllDerivedKeys False scan_memory scan_extractor =
     Inr (1, scan_extractor_after, [replicate 32 0x11, replicate 24 0x11 @ replicate 8 0x22])"
  by (simp add: SearchAllDerivedKeys_def scan_memory_def SearchAllDerivedKeys_loop.simps
     SearchAllDerivedKeys_body_def validator_AllDerivedKeysFound_def scan_extractor_def
     SetValidate_def NewV4Extractor_def scan_validator_def AllDerivedKeysFound_def subslice_def
     ValidateDerivedKey_def toy_decryptor_def scan_primary_def scan_extra_def
     LoadOrStore_AddInt32_def scan_extractor_after_def EncodeToString_inj replicate_numeral Let_def)

text \<open>
  Claim C7. When the context is already cancelled at the call, \<^verbatim>\<open>SearchAllDerivedKeys\<close>
  returns 0 for every chunk, passes no candidate to the validator and leaves
  \<open>foundDerivedKeys\<close> (and the rest of the extractor) unchanged, also when the chunk holds
  a valid derived key.
\<close>

theorem SearchAllDerivedKeys_cancelled:
  "SearchAllDerivedKeys True memory e = Inr (0, e, [])"
  by (rule SearchAllDerivedKeys_cancelled_eq)

text \<open>
  The chunk of the instance holds a valid key: the scan under a live context finds it,
  the scan under a cancelled context returns 0.
\<close>

theorem SearchAllDerivedKeys_cancelled_witness:
  "SearchAllDerivedKeys True scan_memory scan_extractor = Inr (0, scan_extractor, []) \<and>
   fst (projr (SearchAllDerivedKeys False scan_memory scan_extractor)) = 1"
  using SearchAllDerivedKeys_cancelled [of scan_memory scan_extractor]
  by (simp add: scan_first)

text \<open>
  Claim C8. \<^verbatim>\<open>SearchAllDerivedKeys\<close> is idempotent: after a first run on a chunk that
  returned, a second run on the same chunk with the same extractor returns 0, calls
  \<^verbatim>\<open>ValidateDerivedKey\<close> on no candidate and leaves \<open>foundDerivedKeys\<close> (and the rest of the
  extractor) as the first run left it. The context of the two runs is the same one: if it
  was cancelled at the first run it is cancelled at the second.
\<close>

theorem SearchAllDerivedKeys_idempotent:
  assumes "SearchAllDerivedKeys ctx1 memory e = Inr (count1, e1, calls1)"
      and "ctx1 \<longrightarrow> ctx2"
  shows "SearchAllDerivedKeys ctx2 memory e1 = Inr (0, e1, [])"
proof (cases "length memory < 32")
  case True
  then show ?thesis by (simp add: SearchAllDerivedKeys_def)
next
  case long: False
  show ?thesis
  proof (cases ctx1)
    case True
    with assms have "ctx2" and "e1 = e"
      by (simp_all add: SearchAllDerivedKeys_cancelled_eq)
    then show ?thesis by (simp add: SearchAllDerivedKeys_cancelled_eq)
  next
    case False
    have run: "SearchAllDerivedKeys_loop False memory 0 (0, e, []) = Inr (count1, e1, calls1)"
      using assms(1) long False by (simp add: SearchAllDerivedKeys_def)
    have "validator e \<noteq> None"
    proof
      assume "validator e = None"
      then have "SearchAllDerivedKeys_body False memory 0 (0, e, []) = Panic NilPointerDereference"
        by (simp add: SearchAllDerivedKeys_body_def validator_AllDerivedKeysFound_def)
      with run long show False
        by (simp add: SearchAllDerivedKeys_loop.simps [of False memory 0])
    qed
    from SearchAllDerivedKeys_loop_again [OF run this, of ctx2 0 "[]"] long
    show ?thesis by (simp add: SearchAllDerivedKeys_def)
  qed
qed

theorem SearchAllDerivedKeys_idempotent_witness:
  "SearchAllDerivedKeys False scan_memory scan_extractor =
     Inr (1, scan_extractor_after, [replicate 32 0x11, replicate 24 0x11 @ replicate 8 0x22]) \<and>
   foundDerivedKeys scan_extractor_after = {EncodeToString (replicate 32 0x11)} \<and>
   SearchAllDerivedKeys False scan_memory scan_extractor_after = Inr (0, scan_extractor_after, [])"
proof -
  have h: "False \<longrightarrow> False" by simp
  show ?thesis
    using SearchAllDerivedKeys_idempotent [OF scan_first h] scan_first
    by (simp add: scan_extractor_after_def)
qed

subsection \<open>Properties of Extract\<close>

text \<open>
  The values of \<^verbatim>\<open>finalRawDataKey\<close> and \<^verbatim>\<open>finalImgKey\<close> after the pairs of an event list
  have been received: the last non-empty first component, and the last non-empty second
  component.
\<close>

fun collect_raw :: "chan_event list \<Rightarrow> string \<Rightarrow> string" where
  "collect_raw [] raw = raw"
| "collect_raw (CtxDone # events) raw = collect_raw events raw"
| "collect_raw (Result r0 r1 # events) raw = collect_raw events (if r0 \<noteq> '''' then r0 else raw)"

fun collect_img :: "chan_event list \<Rightarrow> string \<Rightarrow> string" where
  "collect_img [] img = img"
| "collect_img (CtxDone # events) img = collect_img events img"
| "collect_img (Result r0 r1 # events) img = collect_img events (if r1 \<noteq> '''' then r1 else img)"

lemma collect_raw_nonempty: "raw \<noteq> '''' \<Longrightarrow> collect_raw events raw \<noteq> ''''"
  by (induction events raw rule: collect_raw.induct) simp_all

lemma collect_img_nonempty: "img \<noteq> '''' \<Longrightarrow> collect_img events img \<noteq> ''''"
  by (induction events img rule: collect_img.induct) simp_all

text \<open>
  The loop drains the channel, that is, reaches the branch of the closed channel, when no
  \<^verbatim>\<open>select\<close> sees the context cancelled and the two keys are never both known.
\<close>

lemma Extract_loop_drained:
  assumes "CtxDone \<notin> set events"
      and "collect_raw events raw = '''' \<or> collect_img events img = ''''"
  shows "Extract_loop events derivedKeys raw img =
           Extract_loop [] derivedKeys (collect_raw events raw) (collect_img events img)"
  using assms
proof (induction events arbitrary: raw img)
  case Nil
  show ?case by simp
next
  case (Cons ev events)
  show ?case
  proof (cases ev)
    case CtxDone
    with Cons.prems show ?thesis by simp
  next
    case (Result r0 r1)
    let ?raw = "if r0 \<noteq> '''' then r0 else raw"
    let ?img = "if r1 \<noteq> '''' then r1 else img"
    have later: "collect_raw events ?raw = '''' \<or> collect_img events ?img = ''''"
      using Cons.prems(2) Result by simp
    then have "\<not> (?raw \<noteq> '''' \<and> ?img \<noteq> '''')"
      using collect_raw_nonempty [of ?raw events] collect_img_nonempty [of ?img events] by blast
    then have "Extract_loop (ev # events) derivedKeys raw img =
        Extract_loop events derivedKeys ?raw ?img"
      unfolding Result by (auto simp: Let_def split: if_splits)
    also have "\<dots> = Extract_loop [] derivedKeys (collect_raw events ?raw) (collect_img events ?img)"
      using Cons.IH [OF _ later] Cons.prems(1) by simp
    also have "\<dots> = Extract_loop [] derivedKeys (collect_raw (ev # events) raw)
        (collect_img (ev # events) img)"
      unfolding Result by (simp del: Extract_loop.simps)
    finally show ?thesis .
  qed
qed

text \<open>
  Claim C5. When \<^verbatim>\<open>Extract\<close> completes by draining the result channel (the preconditions
  hold, no \<^verbatim>\<open>select\<close> sees the context cancelled, and no early return happens, that is, a
  raw key and an image key are never both known), the data key it returns is
  \<open>''derived:''\<close> followed by the keys of \<open>foundDerivedKeys\<close>, as \<^verbatim>\<open>Range\<close> enumerates them,
  joined by \<open>'',''\<close>, whenever \<open>foundDerivedKeys\<close> is not empty; otherwise it is the raw key
  received from a worker, if there is one. (With neither, the data key is empty: the call
  succeeds with the image key alone, or fails with \<^verbatim>\<open>ErrNoValidKey\<close>.)
\<close>

theorem Extract_data_key:
  assumes "\<not> offline" and "sipDisabled" and "validator e \<noteq> None"
      and "set derivedKeys = foundDerivedKeys e"
      and "CtxDone \<notin> set events"
      and "collect_raw events '''' = '''' \<or> collect_img events '''' = ''''"
  shows "Extract e offline sipDisabled events derivedKeys =
           (if foundDerivedKeys e \<noteq> {}
            then Inr (''derived:'' @ Join derivedKeys '','', collect_img events '''')
            else if collect_raw events '''' \<noteq> ''''
            then Inr (collect_raw events '''', collect_img events '''')
            else if collect_img events '''' \<noteq> ''''
            then Inr ('''', collect_img events '''')
            else Inl ErrNoValidKey)"
proof -
  have "foundDerivedKeys e \<noteq> {} \<longleftrightarrow> derivedKeys \<noteq> []"
    using assms(4) by auto
  then show ?thesis
    using assms(1-3) Extract_loop_drained [OF assms(5,6), of derivedKeys]
    by (auto simp: Extract_def Let_def)
qed

text \<open>
  An instance: both derived keys of the test data are in \<open>foundDerivedKeys\<close>, and one worker
  has sent an image key.
\<close>

definition found_extractor :: V4Extractor where
  "found_extractor =
     scan_extractor \<lparr> foundDerivedKeys :=
       {''33d81c8d3b58873d4c50e18868854eb130e4e80909df687e27608ae2d2071fee'',
        ''17776688cb3630f2753b08c2e180d35213c29e2d033903972a56517fb48d08f6''} \<rparr>"

theorem Extract_data_key_witness:
  "Extract found_extractor False True [Result '''' ''000102030405060708090a0b0c0d0e0f'']
     [''17776688cb3630f2753b08c2e180d35213c29e2d033903972a56517fb48d08f6'',
      ''33d81c8d3b58873d4c50e18868854eb130e4e80909df687e27608ae2d2071fee''] =
   Inr (''derived:17776688cb3630f2753b08c2e180d35213c29e2d033903972a56517fb48d08f6,33d81c8d3b58873d4c50e18868854eb130e4e80909df687e27608ae2d2071fee'',
        ''000102030405060708090a0b0c0d0e0f'')"
  using Extract_data_key [of False True found_extractor
      "[''17776688cb3630f2753b08c2e180d35213c29e2d033903972a56517fb48d08f6'',
        ''33d81c8d3b58873d4c50e18868854eb130e4e80909df687e27608ae2d2071fee'']"
      "[Result '''' ''000102030405060708090a0b0c0d0e0f'']"]
  by (simp add: found_extractor_def scan_extractor_def SetValidate_def NewV4Extractor_def
      insert_commute)

lemma collect_raw_none:
  "\<forall>ev \<in> set events. \<exists>r1. ev = Result '''' r1 \<Longrightarrow> collect_raw events raw = raw"
  by (induction events raw rule: collect_raw.induct) auto

text \<open>
  Claim C1, as stated, fails: with no raw key and no derived key, but an image key
  received from a worker, \<^verbatim>\<open>Extract\<close> returns the empty data key and the image key, not
  \<^verbatim>\<open>ErrNoValidKey\<close>, because the test before the error is
  \<^verbatim>\<open>finalDataKey != "" || finalImgKey != ""\<close>.
\<close>

theorem Extract_image_key_only:
  "foundDerivedKeys scan_extractor = {} \<and>
   Extract scan_extractor False True [Result '''' ''000102030405060708090a0b0c0d0e0f''] [] =
     Inr ('''', ''000102030405060708090a0b0c0d0e0f'')"
  by (simp add: Extract_def scan_extractor_def SetValidate_def NewV4Extractor_def)


text \<open>
  Claim C1, amended. When the preconditions hold, the result channel is drained, no worker
  has sent a raw key and \<open>foundDerivedKeys\<close> is empty, \<^verbatim>\<open>Extract\<close> returns
  \<^verbatim>\<open>ErrNoValidKey\<close> if no image key was received either; if one was, it returns the empty
  data key with that image key and no error.
\<close>

theorem Extract_no_valid_key:
  assumes "\<not> offline" and "sipDisabled" and "validator e \<noteq> None"
      and "set derivedKeys = foundDerivedKeys e" and "foundDerivedKeys e = {}"
      and "\<forall>ev \<in> set events. \<exists>r1. ev = Result '''' r1"
  shows "Extract e offline sipDisabled events derivedKeys =
           (if collect_img events '''' = '''' then Inl ErrNoValidKey
            else Inr ('''', collect_img events ''''))"
proof -
  have raw: "collect_raw events '''' = ''''"
    using assms(6) by (rule collect_raw_none)
  have "CtxDone \<notin> set events"
    using assms(6) by auto
  from Extract_loop_drained [OF this, of "''''" "''''" derivedKeys] raw
  show ?thesis
    using assms(1-5) by (simp add: Extract_def Let_def)
qed

theorem Extract_no_valid_key_witness:
  "Extract scan_extractor False True [] [] = Inl ErrNoValidKey \<and>
   Extract scan_extractor False True [Result '''' ''000102030405060708090a0b0c0d0e0f''] [] =
     Inr ('''', ''000102030405060708090a0b0c0d0e0f'')"
  using Extract_no_valid_key [of False True scan_extractor "[]" "[]"]
    Extract_no_valid_key [of False True scan_extractor "[]"
      "[Result '''' ''000102030405060708090a0b0c0d0e0f'']"]
  by (simp add: scan_extractor_def SetValidate_def NewV4Extractor_def)

subsection \<open>Properties of SearchKey and SearchImgKey\<close>

text \<open>\<^verbatim>\<open>bytes.Contains(b, []byte{0x00, 0x00})\<close> holds when two neighbouring bytes are zero.\<close>

lemma Contains_zero_pair:
  "Contains xs [0x00, 0x00] \<longleftrightarrow> (\<exists>i. Suc i < length xs \<and> xs ! i = 0 \<and> xs ! Suc i = 0)"
proof (induction xs)
  case Nil
  show ?case by simp
next
  case (Cons x xs)
  have here: "take 2 (x # xs) = [0, 0] \<longleftrightarrow> (Suc 0 < length (x # xs) \<and> x = 0 \<and> xs ! 0 = 0)"
    by (cases xs) auto
  have "(\<exists>i. Suc i < length (x # xs) \<and> (x # xs) ! i = 0 \<and> (x # xs) ! Suc i = 0) \<longleftrightarrow>
        (Suc 0 < length (x # xs) \<and> x = 0 \<and> xs ! 0 = 0) \<or>
        (\<exists>i. Suc i < length xs \<and> xs ! i = 0 \<and> xs ! Suc i = 0)"
  proof
    assume "\<exists>i. Suc i < length (x # xs) \<and> (x # xs) ! i = 0 \<and> (x # xs) ! Suc i = 0"
    then obtain i where i: "Suc i < length (x # xs)" "(x # xs) ! i = 0" "(x # xs) ! Suc i = 0"
      by blast
    show "(Suc 0 < length (x # xs) \<and> x = 0 \<and> xs ! 0 = 0) \<or>
          (\<exists>i. Suc i < length xs \<and> xs ! i = 0 \<and> xs ! Suc i = 0)"
    proof (cases i)
      case 0
      with i show ?thesis by simp
    next
      case (Suc j)
      with i have "Suc j < length xs \<and> xs ! j = 0 \<and> xs ! Suc j = 0" by simp
      then show ?thesis by blast
    qed
  next
    assume "(Suc 0 < length (x # xs) \<and> x = 0 \<and> xs ! 0 = 0) \<or>
            (\<exists>i. Suc i < length xs \<and> xs ! i = 0 \<and> xs ! Suc i = 0)"
    then show "\<exists>i. Suc i < length (x # xs) \<and> (x # xs) ! i = 0 \<and> (x # xs) ! Suc i = 0"
    proof
      assume "Suc 0 < length (x # xs) \<and> x = 0 \<and> xs ! 0 = 0"
      then have "Suc 0 < length (x # xs) \<and> (x # xs) ! 0 = 0 \<and> (x # xs) ! Suc 0 = 0" by simp
      then show ?thesis by blast
    next
      assume "\<exists>i. Suc i < length xs \<and> xs ! i = 0 \<and> xs ! Suc i = 0"
      then obtain i where "Suc i < length xs \<and> xs ! i = 0 \<and> xs ! Suc i = 0" by blast
      then have "Suc (Suc i) < length (x # xs) \<and> (x # xs) ! Suc i = 0 \<and> (x # xs) ! Suc (Suc i) = 0"
        by simp
      then show ?thesis by blast
    qed
  qed
  with here Cons.IH show ?case by simp
qed

text \<open>
  How a search state grows: the new calls to the validator are in-range windows of \<open>n\<close>
  bytes without two neighbouring zero bytes, and the extractor changes only by their hex
  strings entering the set of processed keys.
\<close>

definition key_candidate :: "nat \<Rightarrow> byte list \<Rightarrow> byte list \<Rightarrow> bool" where
  "key_candidate n memory k =
     ((\<exists>keyOffset. 0 \<le> keyOffset \<and> keyOffset + int n \<le> int (length memory) \<and>
          k = take n (drop (nat keyOffset) memory)) \<and>
      \<not> Contains k [0x00, 0x00])"

definition data_extends :: "byte list \<Rightarrow> key_state \<Rightarrow> key_state \<Rightarrow> bool" where
  "data_extends memory st st' =
     (\<exists>new. snd st' = snd st @ new \<and> (\<forall>k \<in> set new. key_candidate 32 memory k) \<and>
        fst st' = (fst st) \<lparr> processedDataKeys :=
                      processedDataKeys (fst st) \<union> EncodeToString ` set new \<rparr>)"

lemma data_extends_refl: "data_extends memory st st"
  by (simp add: data_extends_def)

lemma data_extends_trans:
  assumes "data_extends memory st st'" and "data_extends memory st' st''"
  shows "data_extends memory st st''"
proof -
  from assms(1) obtain new where new: "snd st' = snd st @ new"
    "\<forall>k \<in> set new. key_candidate 32 memory k"
    "fst st' = (fst st) \<lparr> processedDataKeys := processedDataKeys (fst st) \<union> EncodeToString ` set new \<rparr>"
    unfolding data_extends_def by blast
  from assms(2) obtain new' where new': "snd st'' = snd st' @ new'"
    "\<forall>k \<in> set new'. key_candidate 32 memory k"
    "fst st'' = (fst st') \<lparr> processedDataKeys := processedDataKeys (fst st') \<union> EncodeToString ` set new' \<rparr>"
    unfolding data_extends_def by blast
  have "snd st'' = snd st @ (new @ new')" using new(1) new'(1) by simp
  moreover have "\<forall>k \<in> set (new @ new'). key_candidate 32 memory k"
    using new(2) new'(2) by auto
  moreover have "fst st'' = (fst st) \<lparr> processedDataKeys :=
      processedDataKeys (fst st) \<union> EncodeToString ` set (new @ new') \<rparr>"
    using new(3) new'(3) by (simp add: image_Un Un_assoc)
  ultimately show ?thesis unfolding data_extends_def by blast
qed

lemma data_extends_validator:
  "data_extends memory st st' \<Longrightarrow> validator (fst st') = validator (fst st)"
  by (auto simp: data_extends_def)

text \<open>
  What a loop of the search may end with: a larger state, a result that is either
  \<^verbatim>\<open>("", false)\<close> or the hex string of the last key passed to the validator, or the panic of a
  nil validator. An out-of-range slice is not among them.
\<close>

definition data_outcome ::
  "byte list \<Rightarrow> key_state \<Rightarrow> (key_state, key_result) iteration \<Rightarrow> bool" where
  "data_outcome memory st it =
     (case it of
        Continue st' \<Rightarrow> data_extends memory st st'
      | Return (r, st') \<Rightarrow>
          data_extends memory st st' \<and>
          (r = ('''', False) \<or> (snd st' \<noteq> [] \<and> r = (EncodeToString (last (snd st')), True)))
      | Panic p \<Rightarrow> p = NilPointerDereference \<and> validator (fst st) = None)"

lemma data_outcome_trans:
  assumes "data_extends memory st st'" and "data_outcome memory st' it"
  shows "data_outcome memory st it"
  using assms data_extends_trans [OF assms(1)] data_extends_validator [OF assms(1)]
  by (auto simp: data_outcome_def split: iteration.splits)

lemma SearchKey_candidate_outcome:
  "data_outcome memory st (SearchKey_candidate memory index offset st)"
proof -
  obtain e calls where st: "st = (e, calls)" by (cases st)
  let ?o = "index + offset"
  let ?k = "take 32 (drop (nat ?o) memory)"
  let ?e = "e \<lparr> processedDataKeys := insert (EncodeToString ?k) (processedDataKeys e) \<rparr>"
  have ext: "data_extends memory (e, calls) (?e, calls @ [?k])"
    if "0 \<le> ?o" "?o + 32 \<le> int (length memory)" "\<not> Contains ?k [0x00, 0x00]"
    unfolding data_extends_def key_candidate_def using that
    by (intro exI [of _ "[?k]"]) auto
  show ?thesis
    unfolding st using ext
    by (auto simp: SearchKey_candidate_def Let_def subslice_def data_outcome_def data_extends_refl
        split: option.splits)
qed

lemma SearchKey_offsets_outcome:
  "data_outcome memory st (SearchKey_offsets memory index offsets st)"
proof (induction offsets arbitrary: st)
  case Nil
  show ?case by (simp add: data_outcome_def data_extends_refl)
next
  case (Cons offset rest)
  show ?case
  proof (cases "SearchKey_candidate memory index offset st")
    case (Continue st')
    with SearchKey_candidate_outcome [of memory st index offset]
    have "data_extends memory st st'" by (simp add: data_outcome_def)
    from data_outcome_trans [OF this Cons.IH [of st']] Continue show ?thesis by simp
  next
    case (Return r)
    with SearchKey_candidate_outcome [of memory st index offset] show ?thesis by simp
  next
    case (Panic p)
    with SearchKey_candidate_outcome [of memory st index offset] show ?thesis by simp
  qed
qed

lemma SearchKey_anchor_no_panic:
  assumes "0 \<le> index" and "index \<le> int (length memory)"
  shows "SearchKey_anchor memory pattern zeroPattern index \<noteq> Inl p"
proof -
  obtain s where s: "subslice memory 0 index = Inr s" "int (length s) = index"
    using assms by (auto simp: subslice_def)
  have "LastIndex s pattern = -1 \<or>
        (0 \<le> LastIndex s pattern \<and> LastIndex s pattern \<le> int (length memory))"
    using LastIndex_bounds [of s pattern] s(2) assms(2) by auto
  then show ?thesis
    using s(1) by (auto simp: SearchKey_anchor_def Let_def subslice_def)
qed

lemma SearchKey_scan_outcome:
  assumes "0 \<le> index" and "index \<le> int (length memory)"
  shows "data_outcome memory st (SearchKey_scan ctx memory keyPattern zeroPattern index st)"
  using assms
proof (induction ctx memory keyPattern zeroPattern index st rule: SearchKey_scan.induct)
  case (1 ctx memory keyPattern zeroPattern index st)
  show ?case
  proof (cases ctx)
    case True
    then show ?thesis
      by (subst SearchKey_scan.simps) (simp add: data_outcome_def data_extends_refl)
  next
    case False
    show ?thesis
    proof (cases "SearchKey_anchor memory (Pattern keyPattern) zeroPattern index")
      case (Inl p)
      with SearchKey_anchor_no_panic [OF "1.prems"] show ?thesis by simp
    next
      case (Inr a)
      show ?thesis
      proof (cases a)
        case None
        with Inr False show ?thesis
          by (subst SearchKey_scan.simps) (simp add: data_outcome_def data_extends_refl)
      next
        case (Some index')
        from SearchKey_anchor_bounds [OF Inr [unfolded Some]]
        have b: "0 \<le> index'" "index' \<le> index" "index \<le> int (length memory)" by simp_all
        note off = SearchKey_offsets_outcome [of memory st index' "Offsets keyPattern"]
        show ?thesis
        proof (cases "SearchKey_offsets memory index' (Offsets keyPattern) st")
          case (Continue st')
          with off have ext: "data_extends memory st st'" by (simp add: data_outcome_def)
          show ?thesis
          proof (cases "index' - 1 < 0")
            case True
            with Inr Some False Continue ext show ?thesis
              by (subst SearchKey_scan.simps) (simp add: data_outcome_def)
          next
            case neg: False
            have "data_outcome memory st'
                (SearchKey_scan ctx memory keyPattern zeroPattern (index' - 1) st')"
              using "1.IH" [OF False Inr Some Continue neg] neg b by simp
            from data_outcome_trans [OF ext this] Inr Some False Continue neg show ?thesis
              by (subst SearchKey_scan.simps) simp
          qed
        next
          case (Return r)
          with off Inr Some False show ?thesis
            by (subst SearchKey_scan.simps) simp
        next
          case (Panic p)
          with off Inr Some False show ?thesis
            by (subst SearchKey_scan.simps) simp
        qed
      qed
    qed
  qed
qed

lemma SearchKey_patterns_outcome:
  "data_outcome memory st
     (case SearchKey_patterns ctx memory patterns st of Inl p \<Rightarrow> Panic p | Inr r \<Rightarrow> Return r)"
proof (induction patterns arbitrary: st)
  case Nil
  show ?case by (simp add: data_outcome_def data_extends_refl)
next
  case (Cons keyPattern rest)
  let ?zp = "Pattern keyPattern = [0x00, 0x00, 0x00, 0x00, 0x00, 0x00, 0x00, 0x00,
                                   0x00, 0x00, 0x00, 0x00, 0x00, 0x00, 0x00, 0x00]"
  note scan = SearchKey_scan_outcome [of "int (length memory)" memory st ctx keyPattern ?zp]
  show ?case
  proof (cases "SearchKey_scan ctx memory keyPattern ?zp (int (length memory)) st")
    case (Continue st')
    with scan have "data_extends memory st st'" by (simp add: data_outcome_def)
    from data_outcome_trans [OF this Cons.IH [of st']] Continue show ?thesis
      by (simp add: Let_def)
  next
    case (Return r)
    with scan show ?thesis by (simp add: Let_def)
  next
    case (Panic p)
    with scan show ?thesis by (simp add: Let_def)
  qed
qed

lemma SearchKey_outcome:
  "data_outcome memory (e, [])
     (case SearchKey ctx memory e of Inl p \<Rightarrow> Panic p | Inr r \<Rightarrow> Return r)"
  unfolding SearchKey_def by (rule SearchKey_patterns_outcome)

text \<open>The same for the image-key search, with candidates of 16 bytes and \<open>processedImgKeys\<close>.\<close>

definition img_extends :: "byte list \<Rightarrow> key_state \<Rightarrow> key_state \<Rightarrow> bool" where
  "img_extends memory st st' =
     (\<exists>new. snd st' = snd st @ new \<and> (\<forall>k \<in> set new. key_candidate 16 memory k) \<and>
        fst st' = (fst st) \<lparr> processedImgKeys :=
                      processedImgKeys (fst st) \<union> EncodeToString ` set new \<rparr>)"

lemma img_extends_refl: "img_extends memory st st"
  by (simp add: img_extends_def)

lemma img_extends_trans:
  assumes "img_extends memory st st'" and "img_extends memory st' st''"
  shows "img_extends memory st st''"
proof -
  from assms(1) obtain new where new: "snd st' = snd st @ new"
    "\<forall>k \<in> set new. key_candidate 16 memory k"
    "fst st' = (fst st) \<lparr> processedImgKeys := processedImgKeys (fst st) \<union> EncodeToString ` set new \<rparr>"
    unfolding img_extends_def by blast
  from assms(2) obtain new' where new': "snd st'' = snd st' @ new'"
    "\<forall>k \<in> set new'. key_candidate 16 memory k"
    "fst st'' = (fst st') \<lparr> processedImgKeys := processedImgKeys (fst st') \<union> EncodeToString ` set new' \<rparr>"
    unfolding img_extends_def by blast
  have "snd st'' = snd st @ (new @ new')" using new(1) new'(1) by simp
  moreover have "\<forall>k \<in> set (new @ new'). key_candidate 16 memory k"
    using new(2) new'(2) by auto
  moreover have "fst st'' = (fst st) \<lparr> processedImgKeys :=
      processedImgKeys (fst st) \<union> EncodeToString ` set (new @ new') \<rparr>"
    using new(3) new'(3) by (simp add: image_Un Un_assoc)
  ultimately show ?thesis unfolding img_extends_def by blast
qed

lemma img_extends_validator:
  "img_extends memory st st' \<Longrightarrow> validator (fst st') = validator (fst st)"
  by (auto simp: img_extends_def)

definition img_outcome ::
  "byte list \<Rightarrow> key_state \<Rightarrow> (key_state, key_result) iteration \<Rightarrow> bool" where
  "img_outcome memory st it =
     (case it of
        Continue st' \<Rightarrow> img_extends memory st st'
      | Return (r, st') \<Rightarrow>
          img_extends memory st st' \<and>
          (r = ('''', False) \<or> (snd st' \<noteq> [] \<and> r = (EncodeToString (last (snd st')), True)))
      | Panic p \<Rightarrow> p = NilPointerDereference \<and> validator (fst st) = None)"

lemma img_outcome_trans:
  assumes "img_extends memory st st'" and "img_outcome memory st' it"
  shows "img_outcome memory st it"
  using assms img_extends_trans [OF assms(1)] img_extends_validator [OF assms(1)]
  by (auto simp: img_outcome_def split: iteration.splits)

lemma SearchImgKey_candidate_outcome:
  "img_outcome memory st (SearchImgKey_candidate memory index offset st)"
proof -
  obtain e calls where st: "st = (e, calls)" by (cases st)
  let ?o = "index + offset"
  let ?k = "take 16 (drop (nat ?o) memory)"
  let ?e = "e \<lparr> processedImgKeys := insert (EncodeToString ?k) (processedImgKeys e) \<rparr>"
  have ext: "img_extends memory (e, calls) (?e, calls @ [?k])"
    if "0 \<le> ?o" "?o + 16 \<le> int (length memory)" "\<not> Contains ?k [0x00, 0x00]"
    unfolding img_extends_def key_candidate_def using that
    by (intro exI [of _ "[?k]"]) auto
  show ?thesis
    unfolding st using ext
    by (auto simp: SearchImgKey_candidate_def Let_def subslice_def img_outcome_def img_extends_refl
        split: option.splits)
qed

lemma SearchImgKey_offsets_outcome:
  "img_outcome memory st (SearchImgKey_offsets memory index offsets st)"
proof (induction offsets arbitrary: st)
  case Nil
  show ?case by (simp add: img_outcome_def img_extends_refl)
next
  case (Cons offset rest)
  show ?case
  proof (cases "SearchImgKey_candidate memory index offset st")
    case (Continue st')
    with SearchImgKey_candidate_outcome [of memory st index offset]
    have "img_extends memory st st'" by (simp add: img_outcome_def)
    from img_outcome_trans [OF this Cons.IH [of st']] Continue show ?thesis by simp
  next
    case (Return r)
    with SearchImgKey_candidate_outcome [of memory st index offset] show ?thesis by simp
  next
    case (Panic p)
    with SearchImgKey_candidate_outcome [of memory st index offset] show ?thesis by simp
  qed
qed

lemma SearchImgKey_scan_outcome:
  assumes "0 \<le> index" and "index \<le> int (length memory)"
  shows "img_outcome memory st (SearchImgKey_scan ctx memory keyPattern index st)"
  using assms
proof (induction ctx memory keyPattern index st rule: SearchImgKey_scan.induct)
  case (1 ctx memory keyPattern index st)
  show ?case
  proof (cases ctx)
    case True
    then show ?thesis
      by (subst SearchImgKey_scan.simps) (simp add: img_outcome_def img_extends_refl)
  next
    case False
    show ?thesis
    proof (cases "SearchImgKey_anchor memory (Pattern keyPattern) index")
      case (Inl p)
      with SearchKey_anchor_no_panic [OF "1.prems", of "Pattern keyPattern" True p] show ?thesis
        by (simp add: SearchImgKey_anchor_eq)
    next
      case (Inr a)
      show ?thesis
      proof (cases a)
        case None
        with Inr False show ?thesis
          by (subst SearchImgKey_scan.simps) (simp add: img_outcome_def img_extends_refl)
      next
        case (Some index')
        from SearchKey_anchor_bounds [OF Inr [unfolded Some SearchImgKey_anchor_eq]]
        have b: "0 \<le> index'" "index' \<le> index" "index \<le> int (length memory)" by simp_all
        note off = SearchImgKey_offsets_outcome [of memory st index' "Offsets keyPattern"]
        show ?thesis
        proof (cases "SearchImgKey_offsets memory index' (Offsets keyPattern) st")
          case (Continue st')
          with off have ext: "img_extends memory st st'" by (simp add: img_outcome_def)
          show ?thesis
          proof (cases "index' - 1 < 0")
            case True
            with Inr Some False Continue ext show ?thesis
              by (subst SearchImgKey_scan.simps) (simp add: img_outcome_def)
          next
            case neg: False
            have "img_outcome memory st'
                (SearchImgKey_scan ctx memory keyPattern (index' - 1) st')"
              using "1.IH" [OF False Inr Some Continue neg] neg b by simp
            from img_outcome_trans [OF ext this] Inr Some False Continue neg show ?thesis
              by (subst SearchImgKey_scan.simps) simp
          qed
        next
          case (Return r)
          with off Inr Some False show ?thesis
            by (subst SearchImgKey_scan.simps) simp
        next
          case (Panic p)
          with off Inr Some False show ?thesis
            by (subst SearchImgKey_scan.simps) simp
        qed
      qed
    qed
  qed
qed

lemma SearchImgKey_patterns_outcome:
  "img_outcome memory st
     (case SearchImgKey_patterns ctx memory patterns st of Inl p \<Rightarrow> Panic p | Inr r \<Rightarrow> Return r)"
proof (induction patterns arbitrary: st)
  case Nil
  show ?case by (simp add: img_outcome_def img_extends_refl)
next
  case (Cons keyPattern rest)
  note scan = SearchImgKey_scan_outcome [of "int (length memory)" memory st ctx keyPattern]
  show ?case
  proof (cases "SearchImgKey_scan ctx memory keyPattern (int (length memory)) st")
    case (Continue st')
    with scan have "img_extends memory st st'" by (simp add: img_outcome_def)
    from img_outcome_trans [OF this Cons.IH [of st']] Continue show ?thesis
      by (simp add: Let_def)
  next
    case (Return r)
    with scan show ?thesis by (simp add: Let_def)
  next
    case (Panic p)
    with scan show ?thesis by (simp add: Let_def)
  qed
qed

lemma SearchImgKey_outcome:
  "img_outcome memory (e, [])
     (case SearchImgKey ctx memory e of Inl p \<Rightarrow> Panic p | Inr r \<Rightarrow> Return r)"
  unfolding SearchImgKey_def by (rule SearchImgKey_patterns_outcome)

lemma SearchKey_result:
  assumes "SearchKey ctx memory e = Inr (r, e', calls)"
  shows "(\<forall>k \<in> set calls. key_candidate 32 memory k) \<and>
         e' = e \<lparr> processedDataKeys := processedDataKeys e \<union> EncodeToString ` set calls \<rparr> \<and>
         (r = ('''', False) \<or> (calls \<noteq> [] \<and> r = (EncodeToString (last calls), True)))"
  using SearchKey_outcome [of memory e ctx] assms
  by (auto simp: data_outcome_def data_extends_def)

lemma SearchImgKey_result:
  assumes "SearchImgKey ctx memory e = Inr (r, e', calls)"
  shows "(\<forall>k \<in> set calls. key_candidate 16 memory k) \<and>
         e' = e \<lparr> processedImgKeys := processedImgKeys e \<union> EncodeToString ` set calls \<rparr> \<and>
         (r = ('''', False) \<or> (calls \<noteq> [] \<and> r = (EncodeToString (last calls), True)))"
  using SearchImgKey_outcome [of memory e ctx] assms
  by (auto simp: img_outcome_def img_extends_def)

lemma SearchKey_panic:
  assumes "SearchKey ctx memory e = Inl p"
  shows "p = NilPointerDereference \<and> validator e = None"
  using SearchKey_outcome [of memory e ctx] assms by (simp add: data_outcome_def)

lemma SearchImgKey_panic:
  assumes "SearchImgKey ctx memory e = Inl p"
  shows "p = NilPointerDereference \<and> validator e = None"
  using SearchImgKey_outcome [of memory e ctx] assms by (simp add: img_outcome_def)

text \<open>
  Instances for the two searches. \<open>zero_memory\<close> holds the FTS5 pattern and, at offset
  \<open>+16\<close> from it, a window with two neighbouring zero bytes. \<open>key_memory\<close> holds 32 non-zero
  bytes followed by sixteen zero bytes, which the second raw-key pattern and the image-key
  pattern find; the validator of \<open>raw_extractor\<close> accepts the 32 bytes as raw key and their
  first 16 bytes as image key.
\<close>

definition zero_window :: "byte list" where
  "zero_window = replicate 15 0x33 @ [0x00, 0x00] @ replicate 15 0x33"

definition zero_memory :: "byte list" where
  "zero_memory = [0x20, 0x66, 0x74, 0x73, 0x35, 0x28, 0x25, 0x00] @ replicate 8 0x01 @ zero_window"

definition raw_validator :: Validator where
  "raw_validator =
     \<lparr> platform = ''darwin'', version = 4,
       decryptor = \<lparr> dec_Validate = (\<lambda>page key. take 32 page = key),
                     dec_ValidateDerivedKey = None \<rparr>,
       dbFile = \<lparr> Path = ''db_storage/message/message_0.db'',
                  FirstPage = replicate 16 0x44 @ replicate 16 0x55 @ [0] \<rparr>,
       extraDBFiles = [],
       imgKeyValidator = Some (\<lambda>key. key = replicate 16 0x44), matchedDBs = {},
       matchedCount = 0, totalDBCount = 1 \<rparr>"

definition raw_extractor :: V4Extractor where
  "raw_extractor = SetValidate NewV4Extractor raw_validator"

definition key_memory :: "byte list" where
  "key_memory = replicate 16 0x44 @ replicate 16 0x55 @ replicate 16 0x00"

lemma zero_run:
  "(case SearchKey False zero_memory scan_extractor of
      Inl p \<Rightarrow> False
    | Inr (r, e', calls) \<Rightarrow> r = ([], False) \<and> calls = [] \<and> processedDataKeys e' = {})"
  by code_simp

lemma key_run:
  "(case SearchKey False key_memory raw_extractor of
      Inl p \<Rightarrow> False
    | Inr (r, e', calls) \<Rightarrow>
        r = (EncodeToString (replicate 16 0x44 @ replicate 16 0x55), True) \<and>
        calls = [replicate 16 0x44 @ replicate 16 0x55] \<and>
        processedDataKeys e' = {EncodeToString (replicate 16 0x44 @ replicate 16 0x55)})"
  by code_simp

lemma img_run:
  "(case SearchImgKey False key_memory raw_extractor of
      Inl p \<Rightarrow> False
    | Inr (r, e', calls) \<Rightarrow>
        r = (EncodeToString (replicate 16 0x44), True) \<and>
        calls = [replicate 16 0x44] \<and>
        processedImgKeys e' = {EncodeToString (replicate 16 0x44)})"
  by code_simp

lemma nil_run:
  "(case SearchImgKey False key_memory NewV4Extractor of
      Inl p \<Rightarrow> p = NilPointerDereference
    | Inr res \<Rightarrow> False)"
  by code_simp

text \<open>
  Claim C6. In the raw-key search, a 32-byte candidate window that contains two neighbouring
  zero bytes is rejected, for every anchor position \<open>index\<close> and every offset: the
  iteration for that offset leaves the state unchanged, and over a whole run of
  \<^verbatim>\<open>SearchKey\<close> such a window is never passed to the validator, its hex string enters
  \<open>processedDataKeys\<close> only if it was there before, and it is not the key returned.
\<close>

theorem SearchKey_rejects_zero_pair:
  assumes "Suc i < length w" and "w ! i = 0" and "w ! Suc i = 0"
  shows "(0 \<le> index + offset \<and> index + offset + 32 \<le> int (length memory) \<and>
            take 32 (drop (nat (index + offset)) memory) = w \<longrightarrow>
          SearchKey_candidate memory index offset st = Continue st) \<and>
         (\<forall>r e' calls. SearchKey ctx memory e = Inr (r, e', calls) \<longrightarrow>
            w \<notin> set calls \<and>
            (EncodeToString w \<in> processedDataKeys e' \<longrightarrow> EncodeToString w \<in> processedDataKeys e) \<and>
            r \<noteq> (EncodeToString w, True))"
proof -
  have zz: "Contains w [0x00, 0x00]"
    using assms Contains_zero_pair [of w] by blast
  have local: "SearchKey_candidate memory index offset st = Continue st"
    if "0 \<le> index + offset" "index + offset + 32 \<le> int (length memory)"
       "take 32 (drop (nat (index + offset)) memory) = w"
    using that zz by (cases st) (simp add: SearchKey_candidate_def Let_def subslice_def)
  have global: "w \<notin> set calls \<and>
      (EncodeToString w \<in> processedDataKeys e' \<longrightarrow> EncodeToString w \<in> processedDataKeys e) \<and>
      r \<noteq> (EncodeToString w, True)"
    if run: "SearchKey ctx memory e = Inr (r, e', calls)" for r e' calls
  proof -
    note res = SearchKey_result [OF run]
    have notin: "w \<notin> set calls"
      using res zz by (auto simp: key_candidate_def)
    moreover have "EncodeToString w \<in> processedDataKeys e" if "EncodeToString w \<in> processedDataKeys e'"
    proof -
      from res have "e' = e \<lparr> processedDataKeys := processedDataKeys e \<union> EncodeToString ` set calls \<rparr>"
        by blast
      then have "processedDataKeys e' = processedDataKeys e \<union> EncodeToString ` set calls"
        by simp
      with that notin show ?thesis by (auto simp: EncodeToString_inj)
    qed
    moreover have "r \<noteq> (EncodeToString w, True)"
    proof
      assume "r = (EncodeToString w, True)"
      with res have "calls \<noteq> []" and "EncodeToString (last calls) = EncodeToString w" by auto
      then have "w \<in> set calls" by (auto simp: EncodeToString_inj)
      with notin show False by simp
    qed
    ultimately show ?thesis by blast
  qed
  from local global show ?thesis by blast
qed

theorem SearchKey_rejects_zero_pair_witness:
  "Suc 15 < length zero_window \<and> zero_window ! 15 = 0 \<and> zero_window ! Suc 15 = 0 \<and>
   take 32 (drop 16 zero_memory) = zero_window \<and>
   SearchKey_candidate zero_memory 0 16 (scan_extractor, []) = Continue (scan_extractor, []) \<and>
   (case SearchKey False zero_memory scan_extractor of
      Inl p \<Rightarrow> False
    | Inr (r, e', calls) \<Rightarrow>
        zero_window \<notin> set calls \<and> EncodeToString zero_window \<notin> processedDataKeys e' \<and>
        r \<noteq> (EncodeToString zero_window, True))"
proof -
  have h1: "Suc 15 < length zero_window" by code_simp
  have h2: "zero_window ! 15 = 0" by code_simp
  have h3: "zero_window ! Suc 15 = 0" by code_simp
  have w: "take 32 (drop 16 zero_memory) = zero_window" by code_simp
  have pre: "(0::int) \<le> 0 + 16 \<and> (0::int) + 16 + 32 \<le> int (length zero_memory) \<and>
      take 32 (drop (nat (0 + 16)) zero_memory) = zero_window"
    using w by (simp add: zero_memory_def zero_window_def)
  have empty: "processedDataKeys scan_extractor = {}"
    by (simp add: scan_extractor_def SetValidate_def NewV4Extractor_def)
  note th = SearchKey_rejects_zero_pair [OF h1 h2 h3, where memory = zero_memory
      and ctx = False and e = scan_extractor and index = 0 and offset = 16
      and st = "(scan_extractor, [])"]
  from th pre have local:
    "SearchKey_candidate zero_memory 0 16 (scan_extractor, []) = Continue (scan_extractor, [])"
    by blast
  obtain r e' calls where run: "SearchKey False zero_memory scan_extractor = Inr (r, e', calls)"
    using zero_run by (auto split: sum.splits)
  from th run empty have "zero_window \<notin> set calls \<and>
      EncodeToString zero_window \<notin> processedDataKeys e' \<and> r \<noteq> (EncodeToString zero_window, True)"
    by blast
  with h1 h2 h3 w local run show ?thesis by simp
qed

text \<open>
  Claim C9. For every chunk, pattern and offset, \<^verbatim>\<open>SearchKey\<close> and \<^verbatim>\<open>SearchImgKey\<close> skip
  the offset when \<open>keyOffset < 0\<close> or \<open>keyOffset\<close> plus the candidate length (32 and 16)
  exceeds the chunk length; no slice expression is out of range (the only panic of the
  model is the nil validator pointer, which \<^verbatim>\<open>Extract\<close> excludes); the loops terminate, and
  the result is \<^verbatim>\<open>("", false)\<close> or the hex string of the last candidate validated, every
  candidate validated being a window inside the chunk.
\<close>

theorem SearchKey_SearchImgKey_in_bounds:
  "(index + offset < 0 \<or> index + offset + 32 > int (length memory) \<longrightarrow>
      SearchKey_candidate memory index offset st = Continue st) \<and>
   (index + offset < 0 \<or> index + offset + 16 > int (length memory) \<longrightarrow>
      SearchImgKey_candidate memory index offset st = Continue st) \<and>
   (case SearchKey ctx memory e of
      Inl p \<Rightarrow> p = NilPointerDereference \<and> validator e = None
    | Inr (r, e', calls) \<Rightarrow>
        (r = ('''', False) \<or> (calls \<noteq> [] \<and> r = (EncodeToString (last calls), True))) \<and>
        (\<forall>k \<in> set calls. \<exists>keyOffset. 0 \<le> keyOffset \<and>
            keyOffset + 32 \<le> int (length memory) \<and> k = take 32 (drop (nat keyOffset) memory))) \<and>
   (case SearchImgKey ctx memory e of
      Inl p \<Rightarrow> p = NilPointerDereference \<and> validator e = None
    | Inr (r, e', calls) \<Rightarrow>
        (r = ('''', False) \<or> (calls \<noteq> [] \<and> r = (EncodeToString (last calls), True))) \<and>
        (\<forall>k \<in> set calls. \<exists>keyOffset. 0 \<le> keyOffset \<and>
            keyOffset + 16 \<le> int (length memory) \<and> k = take 16 (drop (nat keyOffset) memory)))"
proof -
  have a: "SearchKey_candidate memory index offset st = Continue st"
    if "index + offset < 0 \<or> index + offset + 32 > int (length memory)"
    using that by (cases st) (auto simp: SearchKey_candidate_def Let_def)
  have b: "SearchImgKey_candidate memory index offset st = Continue st"
    if "index + offset < 0 \<or> index + offset + 16 > int (length memory)"
    using that by (cases st) (auto simp: SearchImgKey_candidate_def Let_def)
  have c: "case SearchKey ctx memory e of
      Inl p \<Rightarrow> p = NilPointerDereference \<and> validator e = None
    | Inr (r, e', calls) \<Rightarrow>
        (r = ('''', False) \<or> (calls \<noteq> [] \<and> r = (EncodeToString (last calls), True))) \<and>
        (\<forall>k \<in> set calls. \<exists>keyOffset. 0 \<le> keyOffset \<and>
            keyOffset + 32 \<le> int (length memory) \<and> k = take 32 (drop (nat keyOffset) memory))"
  proof (cases "SearchKey ctx memory e")
    case (Inl p)
    with SearchKey_panic [OF Inl] show ?thesis by simp
  next
    case (Inr res)
    obtain r e' calls where res: "res = (r, e', calls)" by (cases res)
    from SearchKey_result [OF Inr [unfolded res]] show ?thesis
      unfolding Inr res by (auto simp: key_candidate_def)
  qed
  have d: "case SearchImgKey ctx memory e of
      Inl p \<Rightarrow> p = NilPointerDereference \<and> validator e = None
    | Inr (r, e', calls) \<Rightarrow>
        (r = ('''', False) \<or> (calls \<noteq> [] \<and> r = (EncodeToString (last calls), True))) \<and>
        (\<forall>k \<in> set calls. \<exists>keyOffset. 0 \<le> keyOffset \<and>
            keyOffset + 16 \<le> int (length memory) \<and> k = take 16 (drop (nat keyOffset) memory))"
  proof (cases "SearchImgKey ctx memory e")
    case (Inl p)
    with SearchImgKey_panic [OF Inl] show ?thesis by simp
  next
    case (Inr res)
    obtain r e' calls where res: "res = (r, e', calls)" by (cases res)
    from SearchImgKey_result [OF Inr [unfolded res]] show ?thesis
      unfolding Inr res by (auto simp: key_candidate_def)
  qed
  from a b c d show ?thesis by blast
qed

theorem SearchKey_SearchImgKey_in_bounds_witness:
  "(case SearchKey False key_memory raw_extractor of
      Inl p \<Rightarrow> False
    | Inr (r, e', calls) \<Rightarrow>
        r = (EncodeToString (replicate 16 0x44 @ replicate 16 0x55), True) \<and>
        calls = [replicate 16 0x44 @ replicate 16 0x55]) \<and>
   (\<exists>keyOffset. 0 \<le> keyOffset \<and> keyOffset + 32 \<le> int (length key_memory) \<and>
      replicate 16 0x44 @ replicate 16 0x55 = take 32 (drop (nat keyOffset) key_memory)) \<and>
   (case SearchImgKey False key_memory raw_extractor of
      Inl p \<Rightarrow> False
    | Inr (r, e', calls) \<Rightarrow>
        r = (EncodeToString (replicate 16 0x44), True) \<and> calls = [replicate 16 0x44]) \<and>
   (\<exists>keyOffset. 0 \<le> keyOffset \<and> keyOffset + 16 \<le> int (length key_memory) \<and>
      replicate 16 0x44 = take 16 (drop (nat keyOffset) key_memory)) \<and>
   SearchKey False [] raw_extractor = Inr (('''', False), raw_extractor, []) \<and>
   SearchImgKey False [] raw_extractor = Inr (('''', False), raw_extractor, []) \<and>
   (case SearchImgKey False key_memory NewV4Extractor of
      Inl p \<Rightarrow> p = NilPointerDereference \<and> validator NewV4Extractor = None
    | Inr res \<Rightarrow> False)"
proof -
  note th = SearchKey_SearchImgKey_in_bounds [where memory = key_memory and ctx = False
      and e = raw_extractor and index = 0 and offset = 0 and st = "(raw_extractor, [])"]
  obtain r e' calls where run: "SearchKey False key_memory raw_extractor = Inr (r, e', calls)"
    and res: "r = (EncodeToString (replicate 16 0x44 @ replicate 16 0x55), True)"
      "calls = [replicate 16 0x44 @ replicate 16 0x55]"
    using key_run by (auto split: sum.splits)
  obtain r2 e2 calls2 where run2: "SearchImgKey False key_memory raw_extractor = Inr (r2, e2, calls2)"
    and res2: "r2 = (EncodeToString (replicate 16 0x44), True)" "calls2 = [replicate 16 0x44]"
    using img_run by (auto split: sum.splits)
  from th run res have a: "\<exists>keyOffset. 0 \<le> keyOffset \<and> keyOffset + 32 \<le> int (length key_memory) \<and>
      replicate 16 0x44 @ replicate 16 0x55 = take 32 (drop (nat keyOffset) key_memory)"
    by simp
  from th run2 res2 have b: "\<exists>keyOffset. 0 \<le> keyOffset \<and> keyOffset + 16 \<le> int (length key_memory) \<and>
      replicate 16 0x44 = take 16 (drop (nat keyOffset) key_memory)"
    by simp
  have c: "SearchKey False [] raw_extractor = Inr (('''', False), raw_extractor, [])"
    by (simp add: SearchKey_def raw_extractor_def SetValidate_def NewV4Extractor_def
        V4KeyPatterns_def SearchKey_scan.simps SearchKey_anchor_def subslice_def LastIndex_def)
  have d: "SearchImgKey False [] raw_extractor = Inr (('''', False), raw_extractor, [])"
    by (simp add: SearchImgKey_def raw_extractor_def SetValidate_def NewV4Extractor_def
        V4ImgKeyPatterns_def SearchImgKey_scan.simps SearchImgKey_anchor_def subslice_def
        LastIndex_def)
  have "validator NewV4Extractor = None"
    by (simp add: NewV4Extractor_def)
  with nil_run have e: "case SearchImgKey False key_memory NewV4Extractor of
      Inl p \<Rightarrow> p = NilPointerDereference \<and> validator NewV4Extractor = None
    | Inr res \<Rightarrow> False"
    by (simp split: sum.splits)
  from run res run2 res2 a b c d e show ?thesis by simp
qed

subsection \<open>The windows that SearchAllDerivedKeys examines\<close>

text \<open>
  The specified scan: the byte offsets that are multiples of 8 and at which a 32-byte
  window fits in the chunk, in increasing order, and the windows at these offsets.
\<close>

definition spec_window_offsets :: "byte list \<Rightarrow> nat list" where
  "spec_window_offsets memory =
     filter (\<lambda>pos. pos mod 8 = 0 \<and> pos + 32 \<le> length memory) [0..<length memory]"

definition spec_windows :: "byte list \<Rightarrow> byte list list" where
  "spec_windows memory =
     map (\<lambda>pos. take 32 (drop pos memory)) (spec_window_offsets memory)"

text \<open>
  What the specification says happens to one window. The state is the count of keys found
  in this call, the validator, the two sets \<open>processedDerivedKeys\<close> and \<open>foundDerivedKeys\<close>,
  and the keys passed to \<^verbatim>\<open>ValidateDerivedKey\<close> so far.
\<close>

type_synonym derived_scan = "nat \<times> Validator \<times> string set \<times> string set \<times> byte list list"

fun spec_examine_window :: "derived_scan \<Rightarrow> byte list \<Rightarrow> derived_scan" where
  "spec_examine_window (count, v, processed, found, calls) w =
     (if length (filter (\<lambda>b. b = 0) w) > 24 then (count, v, processed, found, calls)
      else if EncodeToString w \<in> processed then (count, v, processed, found, calls)
      else if fst (ValidateDerivedKey v w)
        then (count + 1, snd (ValidateDerivedKey v w), insert (EncodeToString w) processed,
              insert (EncodeToString w) found, calls @ [w])
        else (count, snd (ValidateDerivedKey v w), insert (EncodeToString w) processed,
              found, calls @ [w]))"

definition spec_examine_windows :: "derived_scan \<Rightarrow> byte list list \<Rightarrow> derived_scan" where
  "spec_examine_windows ds ws = foldl spec_examine_window ds ws"

definition scan_start :: "V4Extractor \<Rightarrow> Validator \<Rightarrow> derived_scan" where
  "scan_start e v = (0, v, processedDerivedKeys e, foundDerivedKeys e, [])"

definition scan_result :: "V4Extractor \<Rightarrow> derived_scan \<Rightarrow> scan_state" where
  "scan_result e ds =
     (case ds of (count, v, processed, found, calls) \<Rightarrow>
        (count,
         e \<lparr> validator := Some v, processedDerivedKeys := processed, foundDerivedKeys := found \<rparr>,
         calls))"

definition scan_validator_of :: "derived_scan \<Rightarrow> Validator" where
  "scan_validator_of ds = fst (snd ds)"

text \<open>The claim as it is stated: every window is examined.\<close>

definition SearchAllDerivedKeys_claimed :: "byte list \<Rightarrow> V4Extractor \<Rightarrow> Validator \<Rightarrow> scan_state" where
  "SearchAllDerivedKeys_claimed memory e v =
     scan_result e (spec_examine_windows (scan_start e v) (spec_windows memory))"

definition window_count :: "byte list \<Rightarrow> nat" where
  "window_count memory = (if length memory < 32 then 0 else (length memory - 32) div 8 + 1)"

lemma window_count_fits: "k < window_count memory \<longleftrightarrow> 8 * k + 32 \<le> length memory"
  by (auto simp: window_count_def)

lemma spec_window_offsets_eq:
  "spec_window_offsets memory = map (\<lambda>k. 8 * k) [0..<window_count memory]"
proof (rule sorted_distinct_set_unique)
  show "sorted (spec_window_offsets memory)"
    by (simp add: spec_window_offsets_def sorted_filter [where f = id, simplified])
  show "distinct (spec_window_offsets memory)"
    by (simp add: spec_window_offsets_def)
  have "sorted_wrt (<) (map (\<lambda>k. 8 * k) [0..<window_count memory])"
    by (simp add: sorted_wrt_map)
  then show "sorted (map (\<lambda>k. 8 * k) [0..<window_count memory])"
    and "distinct (map (\<lambda>k. 8 * k) [0..<window_count memory])"
    by (simp_all only: strict_sorted_iff)
  show "set (spec_window_offsets memory) = set (map (\<lambda>k. 8 * k) [0..<window_count memory])"
  proof (intro set_eqI iffI)
    fix pos
    assume "pos \<in> set (spec_window_offsets memory)"
    then have p: "pos mod 8 = 0" "pos + 32 \<le> length memory"
      by (simp_all add: spec_window_offsets_def)
    then have "pos = 8 * (pos div 8)" by presburger
    moreover have "pos div 8 < window_count memory"
      using p by (simp add: window_count_fits)
    ultimately show "pos \<in> set (map (\<lambda>k. 8 * k) [0..<window_count memory])"
      by (metis (no_types, lifting) atLeast0LessThan image_eqI lessThan_iff list.set_map set_upt)
  next
    fix pos
    assume "pos \<in> set (map (\<lambda>k. 8 * k) [0..<window_count memory])"
    then obtain k where "pos = 8 * k" "k < window_count memory" by auto
    then show "pos \<in> set (spec_window_offsets memory)"
      by (simp add: spec_window_offsets_def window_count_fits)
  qed
qed

lemma spec_windows_eq:
  "spec_windows memory = map (\<lambda>k. take 32 (drop (8 * k) memory)) [0..<window_count memory]"
  by (simp add: spec_windows_def spec_window_offsets_eq comp_def)

lemma take_spec_windows:
  "n \<le> window_count memory \<Longrightarrow>
   take n (spec_windows memory) = map (\<lambda>k. take 32 (drop (8 * k) memory)) [0..<n]"
  by (simp add: spec_windows_eq take_map min_absorb2)

lemma SearchAllDerivedKeys_body_examine:
  assumes "pos + 32 \<le> length memory"
  shows "SearchAllDerivedKeys_body False memory pos (scan_result e ds) =
           (if pos mod (8 * 1024) = 0 \<and> AllDerivedKeysFound (scan_validator_of ds)
            then Return (scan_result e ds)
            else Continue (scan_result e (spec_examine_window ds (take 32 (drop pos memory)))))"
proof -
  obtain count v processed found calls where ds: "ds = (count, v, processed, found, calls)"
    by (cases ds)
  let ?e = "e \<lparr> validator := Some v, processedDerivedKeys := processed, foundDerivedKeys := found \<rparr>"
  let ?w = "take 32 (drop pos memory)"
  have sr: "scan_result e ds = (count, ?e, calls)"
    by (simp add: ds scan_result_def)
  have sl: "subslice memory (int pos) (int pos + 32) = Inr ?w"
    using assms by (simp add: subslice_def)
  have poll: "validator_AllDerivedKeysFound ?e = Inr (AllDerivedKeysFound v)"
    by (simp add: validator_AllDerivedKeysFound_def)
  have sv: "scan_validator_of ds = v"
    by (simp add: ds scan_validator_of_def)
  show ?thesis
  proof (cases "pos mod (8 * 1024) = 0 \<and> AllDerivedKeysFound v")
    case True
    then show ?thesis
      unfolding sr sv by (simp add: SearchAllDerivedKeys_body_def poll)
  next
    case False
    have head: "SearchAllDerivedKeys_body False memory pos (count, ?e, calls) =
        (let zeroCount = length (filter (\<lambda>b. b = 0) ?w) in
         if zeroCount > 24 then Continue (count, ?e, calls)
         else
           let keyHex = EncodeToString ?w in
           if keyHex \<in> processedDerivedKeys ?e then Continue (count, ?e, calls)
           else
             let e1 = ?e \<lparr> processedDerivedKeys := insert keyHex (processedDerivedKeys ?e) \<rparr>
             in (case validator e1 of
                   None \<Rightarrow> Panic NilPointerDereference
                 | Some v \<Rightarrow>
                     let r = ValidateDerivedKey v ?w;
                         e2 = e1 \<lparr> validator := Some (snd r) \<rparr>
                     in if fst r then
                          Continue (count + 1,
                            e2 \<lparr> foundDerivedKeys := insert keyHex (foundDerivedKeys e2) \<rparr>,
                            calls @ [?w])
                        else Continue (count, e2, calls @ [?w])))"
      using False by (auto simp: SearchAllDerivedKeys_body_def poll sl)
    show ?thesis
    proof (cases "length (filter (\<lambda>b. b = 0) ?w) > 24")
      case True
      with False show ?thesis
        unfolding sr sv head by (simp add: ds scan_result_def)
    next
      case nz: False
      show ?thesis
      proof (cases "EncodeToString ?w \<in> processed")
        case True
        with False nz show ?thesis
          unfolding sr sv head by (simp add: ds scan_result_def)
      next
        case new: False
        show ?thesis
        proof (cases "fst (ValidateDerivedKey v ?w)")
          case True
          with False nz new show ?thesis
            unfolding sr sv head by (simp add: ds scan_result_def Let_def)
        next
          case no: False
          with False nz new show ?thesis
            unfolding sr sv head by (simp add: ds scan_result_def Let_def)
        qed
      qed
    qed
  qed
qed

lemma poll_offset: "(8 * k) mod 8192 = 0 \<longleftrightarrow> 1024 dvd (k::nat)"
proof -
  have "(8 * k) mod (8 * 1024) = 8 * (k mod 1024)"
    by (rule mult_mod_right [symmetric])
  then show ?thesis by (simp add: dvd_eq_mod_eq_0)
qed

lemma SearchAllDerivedKeys_loop_step:
  assumes "8 * k + 32 \<le> length memory"
  shows "SearchAllDerivedKeys_loop False memory (8 * k) (scan_result e ds) =
           (if 1024 dvd k \<and> AllDerivedKeysFound (scan_validator_of ds)
            then Inr (scan_result e ds)
            else SearchAllDerivedKeys_loop False memory (8 * k + 8)
                   (scan_result e (spec_examine_window ds (take 32 (drop (8 * k) memory)))))"
proof -
  have body: "SearchAllDerivedKeys_body False memory (8 * k) (scan_result e ds) =
      (if 1024 dvd k \<and> AllDerivedKeysFound (scan_validator_of ds)
       then Return (scan_result e ds)
       else Continue (scan_result e (spec_examine_window ds (take 32 (drop (8 * k) memory)))))"
    using SearchAllDerivedKeys_body_examine [OF assms, of e ds] poll_offset [of k] by simp
  show ?thesis
    by (subst SearchAllDerivedKeys_loop.simps) (simp add: assms body)
qed

lemma spec_examine_windows_upt:
  "k < n \<Longrightarrow>
   spec_examine_windows ds (map W [k..<n]) = spec_examine_windows (spec_examine_window ds (W k)) (map W [Suc k..<n])"
  by (simp add: spec_examine_windows_def upt_conv_Cons)

lemma SearchAllDerivedKeys_loop_examine:
  assumes "k \<le> window_count memory"
  shows "\<exists>n. k \<le> n \<and> n \<le> window_count memory \<and>
           SearchAllDerivedKeys_loop False memory (8 * k) (scan_result e ds) =
             Inr (scan_result e
               (spec_examine_windows ds (map (\<lambda>j. take 32 (drop (8 * j) memory)) [k..<n]))) \<and>
           (n < window_count memory \<longrightarrow> 1024 dvd n \<and>
              AllDerivedKeysFound (scan_validator_of
                (spec_examine_windows ds (map (\<lambda>j. take 32 (drop (8 * j) memory)) [k..<n])))) \<and>
           (\<forall>m. k \<le> m \<and> m < n \<and> 1024 dvd m \<longrightarrow>
              \<not> AllDerivedKeysFound (scan_validator_of
                (spec_examine_windows ds (map (\<lambda>j. take 32 (drop (8 * j) memory)) [k..<m]))))"
  using assms
proof (induction "window_count memory - k" arbitrary: k ds)
  case 0
  then have k: "k = window_count memory" by simp
  then have "\<not> 8 * k + 32 \<le> length memory"
    using window_count_fits [of k memory] by simp
  then have "SearchAllDerivedKeys_loop False memory (8 * k) (scan_result e ds) =
      Inr (scan_result e ds)"
    by (simp add: SearchAllDerivedKeys_loop.simps)
  then show ?case
    using k by (intro exI [of _ k]) (auto simp: spec_examine_windows_def)
next
  case (Suc d)
  let ?W = "\<lambda>j. take 32 (drop (8 * j) memory)"
  from Suc.hyps(2) have k: "k < window_count memory" by simp
  then have fits: "8 * k + 32 \<le> length memory" by (simp add: window_count_fits)
  show ?case
  proof (cases "1024 dvd k \<and> AllDerivedKeysFound (scan_validator_of ds)")
    case True
    then have "SearchAllDerivedKeys_loop False memory (8 * k) (scan_result e ds) =
        Inr (scan_result e ds)"
      using SearchAllDerivedKeys_loop_step [OF fits, of e ds] by simp
    then show ?thesis
      using True k by (intro exI [of _ k]) (auto simp: spec_examine_windows_def)
  next
    case False
    let ?ds = "spec_examine_window ds (?W k)"
    have "8 * Suc k = 8 * k + 8" by simp
    then have step: "SearchAllDerivedKeys_loop False memory (8 * k) (scan_result e ds) =
        SearchAllDerivedKeys_loop False memory (8 * Suc k) (scan_result e ?ds)"
      using SearchAllDerivedKeys_loop_step [OF fits, of e ds] False by (simp only: if_False)
    have "d = window_count memory - Suc k" and "Suc k \<le> window_count memory"
      using Suc.hyps(2) by simp_all
    from Suc.hyps(1) [OF this, of ?ds]
    obtain n where n: "Suc k \<le> n" "n \<le> window_count memory"
      "SearchAllDerivedKeys_loop False memory (8 * Suc k) (scan_result e ?ds) =
         Inr (scan_result e (spec_examine_windows ?ds (map ?W [Suc k..<n])))"
      "n < window_count memory \<longrightarrow> 1024 dvd n \<and>
         AllDerivedKeysFound (scan_validator_of (spec_examine_windows ?ds (map ?W [Suc k..<n])))"
      "\<forall>m. Suc k \<le> m \<and> m < n \<and> 1024 dvd m \<longrightarrow>
         \<not> AllDerivedKeysFound (scan_validator_of (spec_examine_windows ?ds (map ?W [Suc k..<m])))"
      by blast
    have unfold: "spec_examine_windows ds (map ?W [k..<m]) = spec_examine_windows ?ds (map ?W [Suc k..<m])"
      if "k < m" for m
      using that by (rule spec_examine_windows_upt)
    have least: "\<not> AllDerivedKeysFound (scan_validator_of (spec_examine_windows ds (map ?W [k..<m])))"
      if m: "k \<le> m" "m < n" "1024 dvd m" for m
    proof (cases "m = k")
      case True
      with False m(3) show ?thesis by (simp add: spec_examine_windows_def)
    next
      case neq: False
      with m have "Suc k \<le> m" by simp
      with n(5) m have "\<not> AllDerivedKeysFound (scan_validator_of
          (spec_examine_windows ?ds (map ?W [Suc k..<m])))" by blast
      with unfold [of m] neq m(1) show ?thesis by simp
    qed
    have kn: "k < n" using n(1) by simp
    have c1: "k \<le> n \<and> n \<le> window_count memory" using kn n(2) by simp
    have c2: "SearchAllDerivedKeys_loop False memory (8 * k) (scan_result e ds) =
        Inr (scan_result e (spec_examine_windows ds (map ?W [k..<n])))"
      using step n(3) unfold [OF kn] by simp
    have c3: "n < window_count memory \<longrightarrow> 1024 dvd n \<and>
        AllDerivedKeysFound (scan_validator_of (spec_examine_windows ds (map ?W [k..<n])))"
      using n(4) unfold [OF kn] by simp
    have c4: "\<forall>m. k \<le> m \<and> m < n \<and> 1024 dvd m \<longrightarrow>
        \<not> AllDerivedKeysFound (scan_validator_of (spec_examine_windows ds (map ?W [k..<m])))"
      using least by blast
    from c1 c2 c3 c4 show ?thesis by blast
  qed
qed

lemma scan_result_start:
  "validator e = Some v \<Longrightarrow> scan_result e (scan_start e v) = (0, e, [])"
  by (cases e) (simp add: scan_result_def scan_start_def)

text \<open>
  An instance with a single database: the first chunk holds its key, so that after the
  first scan all derived keys are found; the second chunk holds one fresh window.
\<close>

definition single_validator :: Validator where
  "single_validator =
     \<lparr> platform = ''darwin'', version = 4, decryptor = toy_decryptor,
       dbFile = scan_primary, extraDBFiles = [],
       imgKeyValidator = Some (\<lambda>key. False), matchedDBs = {}, matchedCount = 0,
       totalDBCount = 1 \<rparr>"

lemma single_validator_constructed:
  "NewValidatorWithFile ''darwin'' 4 (Inr toy_decryptor) (Inr scan_primary) (\<lambda>key. False)
     [] = Inr single_validator"
  by (simp add: NewValidatorWithFile_def single_validator_def)

definition single_extractor :: V4Extractor where
  "single_extractor = SetValidate NewV4Extractor single_validator"

definition all_found_validator :: Validator where
  "all_found_validator = single_validator \<lparr> matchedDBs := {-1}, matchedCount := 1 \<rparr>"

definition all_found_extractor :: V4Extractor where
  "all_found_extractor =
     single_extractor
       \<lparr> validator := Some all_found_validator,
         processedDerivedKeys := {EncodeToString (replicate 32 0x11)},
         foundDerivedKeys := {EncodeToString (replicate 32 0x11)} \<rparr>"

definition fresh_memory :: "byte list" where
  "fresh_memory = replicate 32 0x22"

lemma single_first:
  "SearchAllDerivedKeys False (replicate 32 0x11) single_extractor =
     Inr (1, all_found_extractor, [replicate 32 0x11])"
  by (simp add: SearchAllDerivedKeys_def SearchAllDerivedKeys_loop.simps
     SearchAllDerivedKeys_body_def validator_AllDerivedKeysFound_def single_extractor_def
     SetValidate_def NewV4Extractor_def single_validator_def AllDerivedKeysFound_def subslice_def
     ValidateDerivedKey_def toy_decryptor_def scan_primary_def all_found_validator_def
     LoadOrStore_AddInt32_def all_found_extractor_def replicate_numeral Let_def)

lemma all_found: "AllDerivedKeysFound all_found_validator"
  by (simp add: AllDerivedKeysFound_def all_found_validator_def single_validator_def)

lemma single_second:
  "SearchAllDerivedKeys False fresh_memory all_found_extractor = Inr (0, all_found_extractor, [])"
  by (simp add: SearchAllDerivedKeys_def SearchAllDerivedKeys_loop.simps [of _ _ 0]
     SearchAllDerivedKeys_body_def validator_AllDerivedKeysFound_def all_found_extractor_def
     all_found fresh_memory_def)

lemma fresh_windows: "spec_windows fresh_memory = [replicate 32 0x22]"
  by code_simp

lemma scan_windows:
  "spec_windows scan_memory = [replicate 32 0x11, replicate 24 0x11 @ replicate 8 0x22]"
  by code_simp

lemma fresh_claimed:
  "snd (snd (SearchAllDerivedKeys_claimed fresh_memory all_found_extractor all_found_validator)) =
     [replicate 32 0x22]"
  by (simp add: SearchAllDerivedKeys_claimed_def fresh_windows spec_examine_windows_def scan_start_def
      scan_result_def all_found_extractor_def EncodeToString_inj replicate_numeral
      split: prod.splits)

text \<open>
  Claim C4, as stated, fails: the scan also polls \<^verbatim>\<open>validator.AllDerivedKeysFound()\<close> at
  every offset that is a multiple of 8192 and returns when it holds. After the first chunk
  of the instance all derived keys are found; in the second chunk (32 bytes, context not
  cancelled) the window at offset 0 has no zero byte and its hex string is not in
  \<open>processedDerivedKeys\<close>, yet the scan returns at once and passes nothing to
  \<^verbatim>\<open>ValidateDerivedKey\<close>.
\<close>

theorem SearchAllDerivedKeys_stops_when_all_found:
  "SearchAllDerivedKeys False (replicate 32 0x11) single_extractor =
     Inr (1, all_found_extractor, [replicate 32 0x11]) \<and>
   validator all_found_extractor = Some all_found_validator \<and>
   32 \<le> length fresh_memory \<and>
   spec_windows fresh_memory = [replicate 32 0x22] \<and>
   length (filter (\<lambda>b. b = 0) (replicate 32 (0x22 :: byte))) \<le> 24 \<and>
   EncodeToString (replicate 32 0x22) \<notin> processedDerivedKeys all_found_extractor \<and>
   SearchAllDerivedKeys False fresh_memory all_found_extractor = Inr (0, all_found_extractor, []) \<and>
   SearchAllDerivedKeys False fresh_memory all_found_extractor \<noteq>
     Inr (SearchAllDerivedKeys_claimed fresh_memory all_found_extractor all_found_validator)"
proof -
  have "SearchAllDerivedKeys False fresh_memory all_found_extractor \<noteq>
      Inr (SearchAllDerivedKeys_claimed fresh_memory all_found_extractor all_found_validator)"
  proof
    assume "SearchAllDerivedKeys False fresh_memory all_found_extractor =
      Inr (SearchAllDerivedKeys_claimed fresh_memory all_found_extractor all_found_validator)"
    then have "SearchAllDerivedKeys_claimed fresh_memory all_found_extractor all_found_validator =
        (0, all_found_extractor, [])"
      by (simp add: single_second)
    then have "snd (snd (SearchAllDerivedKeys_claimed fresh_memory all_found_extractor
        all_found_validator)) = []"
      by (simp only: snd_conv)
    with fresh_claimed show False by simp
  qed
  then show ?thesis
    by (simp add: single_first single_second fresh_windows)
       (simp add: all_found_extractor_def fresh_memory_def EncodeToString_inj replicate_numeral)
qed

text \<open>
  Claim C4, amended. For a chunk of at least 32 bytes, a context that is not cancelled and
  an extractor with a validator, \<^verbatim>\<open>SearchAllDerivedKeys\<close> examines the 32-byte windows at the
  offsets that are multiples of 8 and fit in the chunk, in increasing order, up to the first
  offset that is a multiple of 8192 (window number a multiple of 1024) at which
  \<^verbatim>\<open>AllDerivedKeysFound()\<close> holds; there it returns, and the windows from that one on are
  not examined. Each window examined is treated as stated: more than 24 zero bytes, skipped;
  hex string already in \<open>processedDerivedKeys\<close>, not validated again; otherwise recorded
  there and passed to \<^verbatim>\<open>ValidateDerivedKey\<close>, and stored in \<open>foundDerivedKeys\<close> if it
  validates.
\<close>

theorem SearchAllDerivedKeys_examines:
  assumes "validator e = Some v" and "32 \<le> length memory"
  shows "\<exists>n \<le> length (spec_windows memory).
           SearchAllDerivedKeys False memory e =
             Inr (scan_result e
               (spec_examine_windows (scan_start e v) (take n (spec_windows memory)))) \<and>
           (n < length (spec_windows memory) \<longrightarrow> 1024 dvd n \<and>
              AllDerivedKeysFound (scan_validator_of
                (spec_examine_windows (scan_start e v) (take n (spec_windows memory))))) \<and>
           (\<forall>m < n. 1024 dvd m \<longrightarrow>
              \<not> AllDerivedKeysFound (scan_validator_of
                (spec_examine_windows (scan_start e v) (take m (spec_windows memory)))))"
proof -
  let ?W = "\<lambda>j. take 32 (drop (8 * j) memory)"
  let ?ds = "scan_start e v"
  have len: "length (spec_windows memory) = window_count memory"
    by (simp add: spec_windows_eq)
  have "\<exists>n. 0 \<le> n \<and> n \<le> window_count memory \<and>
      SearchAllDerivedKeys_loop False memory (8 * 0) (scan_result e ?ds) =
        Inr (scan_result e (spec_examine_windows ?ds (map ?W [0..<n]))) \<and>
      (n < window_count memory \<longrightarrow> 1024 dvd n \<and>
         AllDerivedKeysFound (scan_validator_of (spec_examine_windows ?ds (map ?W [0..<n])))) \<and>
      (\<forall>m. 0 \<le> m \<and> m < n \<and> 1024 dvd m \<longrightarrow>
         \<not> AllDerivedKeysFound (scan_validator_of (spec_examine_windows ?ds (map ?W [0..<m]))))"
    by (rule SearchAllDerivedKeys_loop_examine) simp
  then obtain n where n: "n \<le> window_count memory"
    "SearchAllDerivedKeys_loop False memory 0 (scan_result e ?ds) =
       Inr (scan_result e (spec_examine_windows ?ds (map ?W [0..<n])))"
    "n < window_count memory \<longrightarrow> 1024 dvd n \<and>
       AllDerivedKeysFound (scan_validator_of (spec_examine_windows ?ds (map ?W [0..<n])))"
    "\<forall>m. m < n \<and> 1024 dvd m \<longrightarrow>
       \<not> AllDerivedKeysFound (scan_validator_of (spec_examine_windows ?ds (map ?W [0..<m])))"
    by fastforce
  have run: "SearchAllDerivedKeys False memory e =
      Inr (scan_result e (spec_examine_windows ?ds (take n (spec_windows memory))))"
    using n(1,2) assms by (simp add: SearchAllDerivedKeys_def scan_result_start take_spec_windows)
  have stop: "n < length (spec_windows memory) \<longrightarrow> 1024 dvd n \<and>
      AllDerivedKeysFound (scan_validator_of
        (spec_examine_windows ?ds (take n (spec_windows memory))))"
    using n(1,3) by (simp add: len take_spec_windows)
  have least: "\<forall>m < n. 1024 dvd m \<longrightarrow>
      \<not> AllDerivedKeysFound (scan_validator_of
        (spec_examine_windows ?ds (take m (spec_windows memory))))"
    using n(1,4) by (simp add: take_spec_windows)
  from n(1) run stop least show ?thesis
    unfolding len by blast
qed

theorem SearchAllDerivedKeys_examines_witness:
  "validator scan_extractor = Some scan_validator \<and> 32 \<le> length scan_memory \<and>
   SearchAllDerivedKeys False scan_memory scan_extractor =
     Inr (scan_result scan_extractor
       (spec_examine_windows (scan_start scan_extractor scan_validator) (spec_windows scan_memory))) \<and>
   fst (scan_result scan_extractor
       (spec_examine_windows (scan_start scan_extractor scan_validator) (spec_windows scan_memory))) = 1 \<and>
   SearchAllDerivedKeys False fresh_memory all_found_extractor =
     Inr (scan_result all_found_extractor (scan_start all_found_extractor all_found_validator))"
proof -
  have h1: "validator scan_extractor = Some scan_validator"
    by (simp add: scan_extractor_def SetValidate_def)
  have h2: "32 \<le> length scan_memory"
    by (simp add: scan_memory_def)
  have len: "length (spec_windows scan_memory) = 2"
    by (simp add: scan_windows)
  have start: "\<not> AllDerivedKeysFound (scan_validator_of (spec_examine_windows
      (scan_start scan_extractor scan_validator) (take 0 (spec_windows scan_memory))))"
    by (simp add: spec_examine_windows_def scan_start_def scan_validator_of_def AllDerivedKeysFound_def
        scan_validator_def)
  from SearchAllDerivedKeys_examines [OF h1 h2]
  obtain n where n: "n \<le> 2"
    "SearchAllDerivedKeys False scan_memory scan_extractor =
       Inr (scan_result scan_extractor (spec_examine_windows
         (scan_start scan_extractor scan_validator) (take n (spec_windows scan_memory))))"
    "n < 2 \<longrightarrow> 1024 dvd n \<and> AllDerivedKeysFound (scan_validator_of (spec_examine_windows
       (scan_start scan_extractor scan_validator) (take n (spec_windows scan_memory))))"
    unfolding len by blast
  have "n = 2"
  proof (rule ccontr)
    assume "n \<noteq> 2"
    with n(1) have "n < 2" by simp
    with n(3) have "1024 dvd n" by simp
    with \<open>n < 2\<close> have "n = 0" by (auto elim: dvdE)
    with n(3) \<open>n < 2\<close> start show False by simp
  qed
  with n(2) len have run: "SearchAllDerivedKeys False scan_memory scan_extractor =
      Inr (scan_result scan_extractor (spec_examine_windows
        (scan_start scan_extractor scan_validator) (spec_windows scan_memory)))"
    by simp
  have count: "fst (scan_result scan_extractor (spec_examine_windows
      (scan_start scan_extractor scan_validator) (spec_windows scan_memory))) = 1"
  proof -
    have "scan_result scan_extractor (spec_examine_windows
        (scan_start scan_extractor scan_validator) (spec_windows scan_memory)) =
        (1, scan_extractor_after, [replicate 32 0x11, replicate 24 0x11 @ replicate 8 0x22])"
      using run scan_first by (simp only: sum.inject)
    then show ?thesis by (simp only: fst_conv)
  qed
  have stop: "SearchAllDerivedKeys False fresh_memory all_found_extractor =
      Inr (scan_result all_found_extractor (scan_start all_found_extractor all_found_validator))"
  proof -
    have "validator all_found_extractor = Some all_found_validator"
      by (simp add: all_found_extractor_def)
    from scan_result_start [OF this] single_second show ?thesis by simp
  qed
  from h1 h2 run count stop show ?thesis by simp
qed

end
